theory Spec2Isabelle
  imports
    Complex_Main
    "HOL-Library.AList"
    "HOL-Library.Char_ord"
    "HOL-Library.List_Lexorder"
    "HOL-Library.Multiset"
begin

section \<open>Rows, values, errors and streams\<close>

text \<open>
  A row is a Python \<^verbatim>\<open>dict[str, Any]\<close>. Python dictionaries keep their keys in insertion
  order and \<^verbatim>\<open>Joiner.common_join_part\<close> iterates \<^verbatim>\<open>left_row.items()\<close>, so a row is an
  association list in insertion order (with distinct keys). The column values are the
  integers, floats and strings of the repository's data; a float is the real number it
  denotes (rounding, infinities and NaN are outside the model) and \<^verbatim>\<open>None\<close> is not a
  column value.
\<close>

datatype pyval = VInt int | VFloat real | VStr string

type_synonym row = "(string \<times> pyval) list"

text \<open>
  The exceptions the modelled code can raise. \<open>ValueError\<close>, \<open>KeyError\<close> and \<open>RuntimeError\<close>
  carry their argument. \<open>Spins\<close> is not an exception: it marks the \<^verbatim>\<open>while True\<close> loop of
  \<^verbatim>\<open>Join.__call__\<close> going round without advancing either side. In Python's class
  hierarchy \<^verbatim>\<open>ZeroDivisionError\<close> and \<^verbatim>\<open>OverflowError\<close> are the ones that are an
  \<^verbatim>\<open>ArithmeticError\<close>.
\<close>

datatype error =
    ValueError string
  | KeyError string
  | RuntimeError string
  | TypeError
  | AttributeError
  | IndexError
  | OSError
  | ZeroDivisionError
  | OverflowError
  | Spins

fun is_ArithmeticError :: "error \<Rightarrow> bool" where
  "is_ArithmeticError ZeroDivisionError = True"
| "is_ArithmeticError OverflowError = True"
| "is_ArithmeticError _ = False"

text \<open>
  A finite lazy stream (iterator or generator): the items it yields, then either a normal
  end (\<open>None\<close>) or the exception that ends it.
\<close>

type_synonym 'a pystream = "'a list \<times> error option"

text \<open>\<^verbatim>\<open>list(rows)\<close>: all items, or the exception met while collecting them.\<close>

definition materialize :: "'a pystream \<Rightarrow> error + 'a list" where
  "materialize s = (case snd s of None \<Rightarrow> Inr (fst s) | Some e \<Rightarrow> Inl e)"

subsection \<open>Comparison of values and of key tuples\<close>

fun py_eq :: "pyval \<Rightarrow> pyval \<Rightarrow> bool" where
  "py_eq (VInt a) (VInt b) = (a = b)"
| "py_eq (VInt a) (VFloat b) = (real_of_int a = b)"
| "py_eq (VFloat a) (VInt b) = (a = real_of_int b)"
| "py_eq (VFloat a) (VFloat b) = (a = b)"
| "py_eq (VStr a) (VStr b) = (a = b)"
| "py_eq _ _ = False"

fun py_gt :: "pyval \<Rightarrow> pyval \<Rightarrow> error + bool" where
  "py_gt (VInt a) (VInt b) = Inr (b < a)"
| "py_gt (VInt a) (VFloat b) = Inr (b < real_of_int a)"
| "py_gt (VFloat a) (VInt b) = Inr (real_of_int b < a)"
| "py_gt (VFloat a) (VFloat b) = Inr (b < a)"
| "py_gt (VStr a) (VStr b) = Inr (b < a)"
| "py_gt _ _ = Inl TypeError"

fun py_lt :: "pyval \<Rightarrow> pyval \<Rightarrow> error + bool" where
  "py_lt (VInt a) (VInt b) = Inr (a < b)"
| "py_lt (VInt a) (VFloat b) = Inr (real_of_int a < b)"
| "py_lt (VFloat a) (VInt b) = Inr (a < real_of_int b)"
| "py_lt (VFloat a) (VFloat b) = Inr (a < b)"
| "py_lt (VStr a) (VStr b) = Inr (a < b)"
| "py_lt _ _ = Inl TypeError"

text \<open>
  \<^verbatim>\<open>itemgetter(*keys)\<close> applied to a row. With one key Python returns the bare value and
  with several a tuple; the model returns the list of the values in both cases, and
  compares lists as Python compares tuples: the first position where the two are not
  \<^verbatim>\<open>==\<close> decides. On one-element lists this is the comparison of the two values
  (lemmas \<open>tuple_gt_single\<close>, \<open>tuple_lt_single\<close>, \<open>tuple_eq_single\<close>).
\<close>

fun itemgetter :: "string list \<Rightarrow> row \<Rightarrow> error + pyval list" where
  "itemgetter [] r = Inr []"
| "itemgetter (k # ks) r =
     (case map_of r k of
        None \<Rightarrow> Inl (KeyError k)
      | Some v \<Rightarrow> (case itemgetter ks r of Inl e \<Rightarrow> Inl e | Inr vs \<Rightarrow> Inr (v # vs)))"

fun tuple_eq :: "pyval list \<Rightarrow> pyval list \<Rightarrow> bool" where
  "tuple_eq [] [] = True"
| "tuple_eq (x # xs) (y # ys) = (py_eq x y \<and> tuple_eq xs ys)"
| "tuple_eq _ _ = False"

fun tuple_gt :: "pyval list \<Rightarrow> pyval list \<Rightarrow> error + bool" where
  "tuple_gt [] [] = Inr False"
| "tuple_gt (x # xs) [] = Inr True"
| "tuple_gt [] (y # ys) = Inr False"
| "tuple_gt (x # xs) (y # ys) = (if py_eq x y then tuple_gt xs ys else py_gt x y)"

fun tuple_lt :: "pyval list \<Rightarrow> pyval list \<Rightarrow> error + bool" where
  "tuple_lt [] [] = Inr False"
| "tuple_lt (x # xs) [] = Inr False"
| "tuple_lt [] (y # ys) = Inr True"
| "tuple_lt (x # xs) (y # ys) = (if py_eq x y then tuple_lt xs ys else py_lt x y)"

section \<open>Joiners: the combine step\<close>

text \<open>
  One iteration of the loop \<^verbatim>\<open>for key, value in left_row.items()\<close> of
  \<^verbatim>\<open>Joiner.common_join_part\<close>, on the row under construction. \<^verbatim>\<open>new_row.update({k: v})\<close>
  is \<open>AList.update\<close> (overwrite in place, or append), \<^verbatim>\<open>del new_row[k]\<close> is \<open>AList.delete\<close>.
\<close>

definition join_step :: "string list \<Rightarrow> string \<Rightarrow> string \<Rightarrow> row \<Rightarrow> string \<times> pyval \<Rightarrow> row" where
  "join_step keys relevant_suffix_a relevant_suffix_b new_row kv =
     (case map_of new_row (fst kv) of
        None \<Rightarrow> AList.update (fst kv) (snd kv) new_row
      | Some old_right_value \<Rightarrow>
          if fst kv \<notin> set keys
          then AList.update (fst kv @ relevant_suffix_b) old_right_value
                 (AList.update (fst kv @ relevant_suffix_a) (snd kv)
                   (AList.delete (fst kv) new_row))
          else new_row)"

text \<open>The row yielded for one pair: \<^verbatim>\<open>new_row = right_row.copy()\<close>, then the loop over the left row's items.\<close>

definition merge_rows :: "string list \<Rightarrow> string \<Rightarrow> string \<Rightarrow> row \<Rightarrow> row \<Rightarrow> row" where
  "merge_rows keys relevant_suffix_a relevant_suffix_b left_row right_row =
     foldl (join_step keys relevant_suffix_a relevant_suffix_b) right_row left_row"

text \<open>
  The joiners with their suffixes; \<^verbatim>\<open>Joiner.__init__\<close> defaults them to \<open>''_1''\<close> and \<open>''_2''\<close>.
\<close>

datatype joiner =
    InnerJoiner (a_suffix: string) (b_suffix: string)
  | OuterJoiner (a_suffix: string) (b_suffix: string)
  | LeftJoiner (a_suffix: string) (b_suffix: string)
  | RightJoiner (a_suffix: string) (b_suffix: string)

definition relevant_suffixes :: "joiner \<Rightarrow> string \<Rightarrow> string \<times> string" where
  "relevant_suffixes j join_type =
     (if join_type = ''right'' then (b_suffix j, a_suffix j) else (a_suffix j, b_suffix j))"

text \<open>
  \<^verbatim>\<open>common_join_part\<close>: \<open>left_rows\<close> is an iterator (it may end in an exception once its
  rows are used up), \<open>right_rows\<close> a list.
\<close>

definition common_join_part ::
  "joiner \<Rightarrow> string list \<Rightarrow> row pystream \<Rightarrow> row list \<Rightarrow> string \<Rightarrow> row pystream" where
  "common_join_part j keys left_rows right_rows join_type =
     (let (sa, sb) = relevant_suffixes j join_type
      in (concat (map (\<lambda>left_row. map (\<lambda>right_row. merge_rows keys sa sb left_row right_row) right_rows)
                      (fst left_rows)),
          snd left_rows))"

text \<open>The four strategies' \<^verbatim>\<open>__call__(keys, rows_a, rows_b)\<close>.\<close>

fun joiner_call :: "joiner \<Rightarrow> string list \<Rightarrow> row pystream \<Rightarrow> row pystream \<Rightarrow> row pystream" where
  "joiner_call (InnerJoiner sa sb) keys rows_a rows_b =
     (case materialize rows_b of
        Inl e \<Rightarrow> ([], Some e)
      | Inr mb \<Rightarrow> common_join_part (InnerJoiner sa sb) keys rows_a mb ''any'')"
| "joiner_call (OuterJoiner sa sb) keys rows_a rows_b =
     (case materialize rows_a of
        Inl e \<Rightarrow> ([], Some e)
      | Inr ma \<Rightarrow>
          (case materialize rows_b of
             Inl e \<Rightarrow> ([], Some e)
           | Inr mb \<Rightarrow>
               if ma \<noteq> [] \<and> mb \<noteq> [] then common_join_part (OuterJoiner sa sb) keys (ma, None) mb ''any''
               else if ma \<noteq> [] then (ma, None)
               else if mb \<noteq> [] then (mb, None)
               else ([], None)))"
| "joiner_call (LeftJoiner sa sb) keys rows_a rows_b =
     (case materialize rows_b of
        Inl e \<Rightarrow> ([], Some e)
      | Inr mb \<Rightarrow>
          if mb \<noteq> [] then common_join_part (LeftJoiner sa sb) keys rows_a mb ''any''
          else rows_a)"
| "joiner_call (RightJoiner sa sb) keys rows_a rows_b =
     (case materialize rows_a of
        Inl e \<Rightarrow> ([], Some e)
      | Inr ma \<Rightarrow>
          if ma \<noteq> [] then common_join_part (RightJoiner sa sb) keys rows_b ma ''right''
          else rows_b)"

section \<open>Safe group-by, Reduce and Join\<close>

text \<open>
  \<^verbatim>\<open>yield from a\<close> followed by the rest of a generator body \<open>b\<close>: an exception inside \<open>a\<close>
  ends the generator.
\<close>

definition yield_from_then :: "'a pystream \<Rightarrow> 'a pystream \<Rightarrow> 'a pystream" where
  "yield_from_then a b =
     (case snd a of None \<Rightarrow> (fst a @ fst b, snd b) | Some e \<Rightarrow> (fst a, Some e))"

text \<open>
  \<^verbatim>\<open>itertools.groupby(rows, itemgetter(*keys))\<close> pulls the rows one by one and computes each
  row's key when it pulls it; \<open>keyed\<close> is the stream of rows with their keys, cut at the
  first row that lacks a key column (\<^verbatim>\<open>KeyError\<close>) or at the exception that ends \<open>rows\<close>.
\<close>

fun keyed :: "string list \<Rightarrow> row list \<Rightarrow> error option \<Rightarrow> (pyval list \<times> row) pystream" where
  "keyed keys [] t = ([], t)"
| "keyed keys (r # rs) t =
     (case itemgetter keys r of
        Inl e \<Rightarrow> ([], Some e)
      | Inr k \<Rightarrow> (case keyed keys rs t of (xs, t') \<Rightarrow> ((k, r) # xs, t')))"

text \<open>
  The groups of \<^verbatim>\<open>itertools.groupby\<close>: a group runs while the key of the row pulled is
  \<^verbatim>\<open>==\<close> to the key of the group's first row, and carries that first key.
\<close>

function groupby :: "(pyval list \<times> row) list \<Rightarrow> (pyval list \<times> row list) list" where
  "groupby [] = []"
| "groupby ((k, r) # xs) =
     (k, r # map snd (takeWhile (\<lambda>x. tuple_eq (fst x) k) xs))
       # groupby (dropWhile (\<lambda>x. tuple_eq (fst x) k) xs)"
  by pat_completeness auto
termination
  by (relation "measure length") (auto simp: length_dropWhile_le less_Suc_eq_le)

text \<open>
  The loop of \<^verbatim>\<open>_safe_groupby\<close> after a group has been yielded. A group is an iterator over
  the underlying stream: the exception \<open>t\<close> that ends the stream is met at the end of the
  last group, or when the generator is asked for one more group.
\<close>

fun safe_groups ::
  "pyval list \<times> row list \<Rightarrow> (pyval list \<times> row list) list \<Rightarrow> error option
     \<Rightarrow> (pyval list \<times> row pystream) pystream" where
  "safe_groups (prev_keys, g) [] t = ([(prev_keys, (g, t))], t)"
| "safe_groups (prev_keys, g) ((keys, g') # rest) t =
     (case tuple_gt prev_keys keys of
        Inl e \<Rightarrow> ([(prev_keys, (g, None))], Some e)
      | Inr True \<Rightarrow> ([(prev_keys, (g, None))], Some (ValueError ''Stream is not sorted by keys''))
      | Inr False \<Rightarrow>
          (case safe_groups (keys, g') rest t of
             (items, t') \<Rightarrow> ((prev_keys, (g, None)) # items, t')))"

text \<open>
  \<^verbatim>\<open>_safe_groupby(rows, keys)\<close>. On an empty \<open>rows\<close> the unguarded \<^verbatim>\<open>next(groups)\<close> raises
  \<^verbatim>\<open>StopIteration\<close> inside the generator, which Python (PEP 479) turns into
  \<^verbatim>\<open>RuntimeError('generator raised StopIteration')\<close>. With no keys the one pair yielded
  holds \<open>keys\<close> itself, the empty sequence.
\<close>

definition unsorted :: error where
  "unsorted = ValueError ''Stream is not sorted by keys''"

definition stop_iteration_in_generator :: error where
  "stop_iteration_in_generator = RuntimeError ''generator raised StopIteration''"

definition safe_groupby :: "row pystream \<Rightarrow> string list \<Rightarrow> (pyval list \<times> row pystream) pystream" where
  "safe_groupby rows keys =
     (if keys \<noteq> [] then
        (case keyed keys (fst rows) (snd rows) of
           (xs, t) \<Rightarrow>
             (case groupby xs of
                [] \<Rightarrow> ([], Some (case t of None \<Rightarrow> stop_iteration_in_generator | Some e \<Rightarrow> e))
              | g # gs \<Rightarrow> safe_groups g gs t))
      else ([([], rows)], None))"

text \<open>A reducer: \<^verbatim>\<open>__call__(group_key, rows)\<close>, a generator over the group's iterator.\<close>

type_synonym reducer = "string list \<Rightarrow> row pystream \<Rightarrow> row pystream"

fun reduce_loop :: "reducer \<Rightarrow> string list \<Rightarrow> (pyval list \<times> row pystream) list \<Rightarrow> error option \<Rightarrow> row pystream" where
  "reduce_loop reducer keys [] t = ([], t)"
| "reduce_loop reducer keys (kg # rest) t =
     yield_from_then (reducer keys (snd kg)) (reduce_loop reducer keys rest t)"

definition Reduce_call :: "reducer \<Rightarrow> string list \<Rightarrow> row pystream \<Rightarrow> row pystream" where
  "Reduce_call reducer keys rows =
     (case safe_groupby rows keys of (items, t) \<Rightarrow> reduce_loop reducer keys items t)"


text \<open>\<^verbatim>\<open>next(gen, (None, None))\<close>: the next item and the rest, the default at a normal end.\<close>

fun next_default :: "'a pystream \<Rightarrow> error + ('a option \<times> 'a pystream)" where
  "next_default ([], None) = Inr (None, ([], None))"
| "next_default ([], Some e) = Inl e"
| "next_default (x # xs, t) = Inr (Some x, (xs, t))"

text \<open>
  The \<^verbatim>\<open>while True\<close> loop of \<^verbatim>\<open>Join.__call__\<close>. \<open>cl\<close> and \<open>cr\<close> are the current
  \<^verbatim>\<open>(keys_left, rows_left_group)\<close> and \<^verbatim>\<open>(keys_right, rows_right_group)\<close>, \<open>None\<close> for
  \<^verbatim>\<open>(None, None)\<close>; \<open>L\<close> and \<open>R\<close> are what is left of the two \<^verbatim>\<open>_safe_groupby\<close> generators.
  No column value is \<^verbatim>\<open>None\<close>, so the keys of a current group pass the loop's
  \<^verbatim>\<open>is not None\<close> tests whenever the group does. The joiner is any
  \<^verbatim>\<open>__call__(keys, rows_a, rows_b)\<close>; the literal \<^verbatim>\<open>[]\<close> is \<open>([], None)\<close>.
\<close>

type_synonym joiner_fn = "string list \<Rightarrow> row pystream \<Rightarrow> row pystream \<Rightarrow> row pystream"

type_synonym group = "pyval list \<times> row pystream"

function join_loop ::
  "joiner_fn \<Rightarrow> string list \<Rightarrow> group option \<Rightarrow> group pystream \<Rightarrow> group option \<Rightarrow> group pystream
     \<Rightarrow> row pystream" where
  "join_loop J keys (Some l) L (Some r) R =
     (if tuple_eq (fst l) (fst r) then
        yield_from_then (J keys (snd l) (snd r))
          (case next_default L of
             Inl e \<Rightarrow> ([], Some e)
           | Inr nl \<Rightarrow>
               (case next_default R of
                  Inl e \<Rightarrow> ([], Some e)
                | Inr nr \<Rightarrow> join_loop J keys (fst nl) (snd nl) (fst nr) (snd nr)))
      else
        (case tuple_gt (fst l) (fst r) of
           Inl e \<Rightarrow> ([], Some e)
         | Inr True \<Rightarrow>
             yield_from_then (J keys ([], None) (snd r))
               (case next_default R of
                  Inl e \<Rightarrow> ([], Some e)
                | Inr nr \<Rightarrow> join_loop J keys (Some l) L (fst nr) (snd nr))
         | Inr False \<Rightarrow>
             (case tuple_lt (fst l) (fst r) of
                Inl e \<Rightarrow> ([], Some e)
              | Inr True \<Rightarrow>
                  yield_from_then (J keys (snd l) ([], None))
                    (case next_default L of
                       Inl e \<Rightarrow> ([], Some e)
                     | Inr nl \<Rightarrow> join_loop J keys (fst nl) (snd nl) (Some r) R)
              | Inr False \<Rightarrow> ([], Some Spins))))"
| "join_loop J keys (Some l) L None R =
     yield_from_then (J keys (snd l) ([], None))
       (case next_default L of
          Inl e \<Rightarrow> ([], Some e)
        | Inr nl \<Rightarrow> join_loop J keys (fst nl) (snd nl) None R)"
| "join_loop J keys None L (Some r) R =
     yield_from_then (J keys ([], None) (snd r))
       (case next_default R of
          Inl e \<Rightarrow> ([], Some e)
        | Inr nr \<Rightarrow> join_loop J keys None L (fst nr) (snd nr))"
| "join_loop J keys None L None R = ([], None)"
  by pat_completeness auto
termination
  by (relation "measure (\<lambda>(J, keys, cl, L, cr, R).
        length (fst L) + (case cl of None \<Rightarrow> 0 | Some x \<Rightarrow> 1)
        + length (fst R) + (case cr of None \<Rightarrow> 0 | Some x \<Rightarrow> 1))")
    (auto elim!: next_default.elims)

definition Join_call :: "joiner_fn \<Rightarrow> string list \<Rightarrow> row pystream \<Rightarrow> row pystream \<Rightarrow> row pystream" where
  "Join_call J keys rows rows1 =
     (let rows_left = safe_groupby rows keys;
          rows_right = safe_groupby rows1 keys
      in case next_default rows_left of
           Inl e \<Rightarrow> ([], Some e)
         | Inr nl \<Rightarrow>
             (case next_default rows_right of
                Inl e \<Rightarrow> ([], Some e)
              | Inr nr \<Rightarrow> join_loop J keys (fst nl) (snd nl) (fst nr) (snd nr)))"

text \<open>
  The groups \<^verbatim>\<open>itertools.groupby\<close> cuts a stream into, with their keys, and the two
  relations between a group and the next that \<^verbatim>\<open>prev_keys > keys\<close> can show: the key goes
  strictly down, or the two keys can be compared at all (no \<^verbatim>\<open>TypeError\<close>).
\<close>

definition stream_groups :: "string list \<Rightarrow> row pystream \<Rightarrow> (pyval list \<times> row list) list" where
  "stream_groups keys rows = groupby (fst (keyed keys (fst rows) (snd rows)))"

definition decreasing_at :: "(pyval list \<times> row list) list \<Rightarrow> nat \<Rightarrow> bool" where
  "decreasing_at gs i = (Suc i < length gs \<and> tuple_gt (fst (gs ! i)) (fst (gs ! Suc i)) = Inr True)"

definition comparable_at :: "(pyval list \<times> row list) list \<Rightarrow> nat \<Rightarrow> bool" where
  "comparable_at gs i = (tuple_gt (fst (gs ! i)) (fst (gs ! Suc i)) \<noteq> Inl TypeError)"

text \<open>
  Every group of \<open>groups\<close> handed to \<open>f\<close> in turn (\<^verbatim>\<open>yield from f(group)\<close>), then the end
  \<open>t\<close> of the generator that produced the groups.
\<close>

definition delegate_each :: "(group \<Rightarrow> row pystream) \<Rightarrow> group list \<Rightarrow> error option \<Rightarrow> row pystream" where
  "delegate_each f groups t = foldr (\<lambda>g rest. yield_from_then (f g) rest) groups ([], t)"

text \<open>
  No column name of the row is another of its column names followed by one of the two
  suffixes: the names a rename creates are not columns of the row already.
\<close>

definition plain_columns :: "string \<Rightarrow> string \<Rightarrow> row \<Rightarrow> bool" where
  "plain_columns sa sb r =
     (\<forall>k \<in> fst ` set r. k @ sa \<notin> fst ` set r \<and> k @ sb \<notin> fst ` set r)"

section \<open>Mappers and Map\<close>

text \<open>
  Python's \<^verbatim>\<open>*\<close> and \<^verbatim>\<open>/\<close> on the model's values.

  An operation on an \<^verbatim>\<open>int\<close> and a \<^verbatim>\<open>float\<close> first converts the \<^verbatim>\<open>int\<close> to a \<^verbatim>\<open>float\<close>, which
  raises \<^verbatim>\<open>OverflowError\<close> when the \<^verbatim>\<open>int\<close> rounds to a magnitude above the largest float
  \<^verbatim>\<open>2**1024 - 2**971\<close>, that is from \<^verbatim>\<open>2**1024 - 2**970\<close> on. The conversion is made
  before the operation looks at anything else, a zero denominator included. (The float it
  gives is the real number of the \<^verbatim>\<open>int\<close>: rounding is outside the model.)
\<close>

definition float_limit :: int where
  "float_limit = 2 ^ 1024 - 2 ^ 970"

definition to_float :: "int \<Rightarrow> error + real" where
  "to_float n = (if \<bar>n\<bar> < float_limit then Inr (real_of_int n) else Inl OverflowError)"

text \<open>
  \<^verbatim>\<open>str * int\<close> and \<^verbatim>\<open>int * str\<close> repeat the string. The count has to fit a signed 64-bit
  index and the length of the result too (\<^verbatim>\<open>OverflowError\<close> otherwise); a count below one
  gives the empty string. Memory is taken to be unbounded (no \<^verbatim>\<open>MemoryError\<close>).
\<close>

definition repeat_str :: "string \<Rightarrow> int \<Rightarrow> error + pyval" where
  "repeat_str s n =
     (if n < - (2 ^ 63) \<or> 2 ^ 63 \<le> n then Inl OverflowError
      else if n < 1 then Inr (VStr [])
      else if n = 1 then Inr (VStr s)
      else if (2 ^ 63 - 1) div n < int (length s) then Inl OverflowError
      else Inr (VStr (concat (replicate (nat n) s))))"

fun py_mul :: "pyval \<Rightarrow> pyval \<Rightarrow> error + pyval" where
  "py_mul (VInt a) (VInt b) = Inr (VInt (a * b))"
| "py_mul (VInt a) (VFloat b) =
     (case to_float a of Inl e \<Rightarrow> Inl e | Inr x \<Rightarrow> Inr (VFloat (x * b)))"
| "py_mul (VFloat a) (VInt b) =
     (case to_float b of Inl e \<Rightarrow> Inl e | Inr y \<Rightarrow> Inr (VFloat (a * y)))"
| "py_mul (VFloat a) (VFloat b) = Inr (VFloat (a * b))"
| "py_mul (VInt n) (VStr s) = repeat_str s n"
| "py_mul (VStr s) (VInt n) = repeat_str s n"
| "py_mul _ _ = Inl TypeError"

text \<open>
  \<^verbatim>\<open>/\<close> is true division, and its result a float. Between two \<^verbatim>\<open>int\<close>s the denominator is
  tested first and the quotient is rounded once: it raises \<^verbatim>\<open>OverflowError\<close> when the
  quotient itself is beyond the floats. With a \<^verbatim>\<open>float\<close> operand the \<^verbatim>\<open>int\<close> operand is
  converted first. An operand that is a string raises \<^verbatim>\<open>TypeError\<close>.
\<close>

fun py_truediv :: "pyval \<Rightarrow> pyval \<Rightarrow> error + pyval" where
  "py_truediv (VInt a) (VInt b) =
     (if b = 0 then Inl ZeroDivisionError
      else if float_limit * \<bar>b\<bar> \<le> \<bar>a\<bar> then Inl OverflowError
      else Inr (VFloat (real_of_int a / real_of_int b)))"
| "py_truediv (VInt a) (VFloat b) =
     (case to_float a of
        Inl e \<Rightarrow> Inl e
      | Inr x \<Rightarrow> if b = 0 then Inl ZeroDivisionError else Inr (VFloat (x / b)))"
| "py_truediv (VFloat a) (VInt b) =
     (case to_float b of
        Inl e \<Rightarrow> Inl e
      | Inr y \<Rightarrow> if y = 0 then Inl ZeroDivisionError else Inr (VFloat (a / y)))"
| "py_truediv (VFloat a) (VFloat b) =
     (if b = 0 then Inl ZeroDivisionError else Inr (VFloat (a / b)))"
| "py_truediv _ _ = Inl TypeError"

text \<open>
  \<^verbatim>\<open>string.punctuation\<close> is the 32 ASCII characters with the codes 33 to 47, 58 to 64, 91 to
  96 and 123 to 126; \<^verbatim>\<open>str.translate\<close> with the table of \<^verbatim>\<open>FilterPunctuation\<close> deletes them.
  \<^verbatim>\<open>str.lower\<close> is given on the code points below 256, the characters of \<open>string\<close>.
\<close>

definition is_punctuation :: "char \<Rightarrow> bool" where
  "is_punctuation c =
     (let n = (of_char c :: nat)
      in (33 \<le> n \<and> n \<le> 47) \<or> (58 \<le> n \<and> n \<le> 64) \<or> (91 \<le> n \<and> n \<le> 96) \<or> (123 \<le> n \<and> n \<le> 126))"

definition translate_punctuation :: "string \<Rightarrow> string" where
  "translate_punctuation s = filter (\<lambda>c. \<not> is_punctuation c) s"

definition lower_char :: "char \<Rightarrow> char" where
  "lower_char c =
     (let n = (of_char c :: nat)
      in if (65 \<le> n \<and> n \<le> 90) \<or> (192 \<le> n \<and> n \<le> 222 \<and> n \<noteq> 215) then char_of (n + 32) else c)"

definition lower_case :: "string \<Rightarrow> string" where
  "lower_case txt = map lower_char txt"

text \<open>
  The mappers that assign into the row they are given: what the body of \<^verbatim>\<open>__call__\<close> has
  made of the row when it reaches \<^verbatim>\<open>yield row\<close> (\<open>None\<close>) or raises.
\<close>

definition FilterPunctuation_body :: "string \<Rightarrow> row \<Rightarrow> row \<times> error option" where
  "FilterPunctuation_body column row =
     (case map_of row column of
        None \<Rightarrow> (row, Some (KeyError column))
      | Some (VStr s) \<Rightarrow> (AList.update column (VStr (translate_punctuation s)) row, None)
      | Some _ \<Rightarrow> (row, Some AttributeError))"

definition LowerCase_body :: "string \<Rightarrow> row \<Rightarrow> row \<times> error option" where
  "LowerCase_body column row =
     (case map_of row column of
        None \<Rightarrow> (row, Some (KeyError column))
      | Some (VStr s) \<Rightarrow> (AList.update column (VStr (lower_case s)) row, None)
      | Some _ \<Rightarrow> (row, Some AttributeError))"

fun Product_loop :: "string list \<Rightarrow> string \<Rightarrow> row \<Rightarrow> row \<times> error option" where
  "Product_loop [] result_column row = (row, None)"
| "Product_loop (column # columns) result_column row =
     (case map_of row result_column of
        None \<Rightarrow> (row, Some (KeyError result_column))
      | Some acc \<Rightarrow>
          (case map_of row column of
             None \<Rightarrow> (row, Some (KeyError column))
           | Some x \<Rightarrow>
               (case py_mul acc x of
                  Inl e \<Rightarrow> (row, Some e)
                | Inr p \<Rightarrow> Product_loop columns result_column (AList.update result_column p row))))"

definition Product_body :: "string list \<Rightarrow> string \<Rightarrow> row \<Rightarrow> row \<times> error option" where
  "Product_body columns result_column row =
     Product_loop columns result_column (AList.update result_column (VInt 1) row)"

text \<open>
  \<^verbatim>\<open>Divide.__call__\<close>: the division inside \<^verbatim>\<open>try\<close>, and \<^verbatim>\<open>except ZeroDivisionError\<close> raising a
  \<^verbatim>\<open>ValueError\<close> in its place; every other exception passes.
\<close>

definition zero_denominator :: error where
  "zero_denominator = ValueError ''Denominator column contains zero value''"

definition Divide_body :: "string \<Rightarrow> string \<Rightarrow> string \<Rightarrow> row \<Rightarrow> row \<times> error option" where
  "Divide_body column_numerator column_denominator result_column row =
     (case map_of row column_numerator of
        None \<Rightarrow> (row, Some (KeyError column_numerator))
      | Some x \<Rightarrow>
          (case map_of row column_denominator of
             None \<Rightarrow> (row, Some (KeyError column_denominator))
           | Some y \<Rightarrow>
               (case py_truediv x y of
                  Inl ZeroDivisionError \<Rightarrow> (row, Some zero_denominator)
                | Inl e \<Rightarrow> (row, Some e)
                | Inr q \<Rightarrow> (AList.update result_column q row, None))))"

text \<open>\<^verbatim>\<open>Project\<close> builds a new dictionary \<^verbatim>\<open>{column: row[column] for column in self.columns}\<close>.\<close>

fun Project_loop :: "string list \<Rightarrow> row \<Rightarrow> row \<Rightarrow> error + row" where
  "Project_loop [] row acc = Inr acc"
| "Project_loop (column # columns) row acc =
     (case map_of row column of
        None \<Rightarrow> Inl (KeyError column)
      | Some v \<Rightarrow> Project_loop columns row (AList.update column v acc))"

datatype mapper =
    DummyMapper
  | FilterPunctuation string
  | LowerCase string
  | Product "string list" string
  | Divide string string string
  | Project "string list"

fun mapper_body :: "mapper \<Rightarrow> row \<Rightarrow> row \<times> error option" where
  "mapper_body DummyMapper row = (row, None)"
| "mapper_body (FilterPunctuation column) row = FilterPunctuation_body column row"
| "mapper_body (LowerCase column) row = LowerCase_body column row"
| "mapper_body (Product columns result_column) row = Product_body columns result_column row"
| "mapper_body (Divide n d r) row = Divide_body n d r row"
| "mapper_body (Project columns) row = (row, None)"

text \<open>
  A mapper call on a row value: the rows it yields and how it ends. This view is right as
  long as no row object is looked at again after a mapper has assigned into it.
\<close>

type_synonym mapper_fn = "row \<Rightarrow> row pystream"

fun mapper_call :: "mapper \<Rightarrow> mapper_fn" where
  "mapper_call (Project columns) row =
     (case Project_loop columns row [] of Inl e \<Rightarrow> ([], Some e) | Inr r \<Rightarrow> ([r], None))"
| "mapper_call m row =
     (case mapper_body m row of (r, None) \<Rightarrow> ([r], None) | (r, Some e) \<Rightarrow> ([], Some e))"

text \<open>\<^verbatim>\<open>Map.__call__\<close>: \<^verbatim>\<open>for row in rows: yield from self.mapper(row)\<close>.\<close>

fun map_loop :: "mapper_fn \<Rightarrow> row list \<Rightarrow> error option \<Rightarrow> row pystream" where
  "map_loop mapper [] t = ([], t)"
| "map_loop mapper (row # rows) t = yield_from_then (mapper row) (map_loop mapper rows t)"

definition Map_call :: "mapper_fn \<Rightarrow> row pystream \<Rightarrow> row pystream" where
  "Map_call mapper rows = map_loop mapper (fst rows) (snd rows)"

subsection \<open>Row objects\<close>

text \<open>
  The same mappers on row objects. The store is the list of the dictionaries allocated so
  far and an object is its index; a stream carries objects. The mappers with a body
  assign into the object they are given and yield that object; \<^verbatim>\<open>Project\<close> allocates a
  new dictionary.
\<close>

type_synonym store = "row list"

fun mapper_call_obj :: "mapper \<Rightarrow> nat \<Rightarrow> store \<Rightarrow> nat pystream \<times> store" where
  "mapper_call_obj (Project columns) a h =
     (case Project_loop columns (h ! a) [] of
        Inl e \<Rightarrow> (([], Some e), h)
      | Inr r \<Rightarrow> (([length h], None), h @ [r]))"
| "mapper_call_obj m a h =
     (case mapper_body m (h ! a) of
        (r, None) \<Rightarrow> (([a], None), h[a := r])
      | (r, Some e) \<Rightarrow> (([], Some e), h[a := r]))"

text \<open>\<^verbatim>\<open>Map.__call__\<close> consumed to its end, on a stream of row objects.\<close>

fun Map_obj :: "mapper \<Rightarrow> nat list \<Rightarrow> error option \<Rightarrow> store \<Rightarrow> nat pystream \<times> store" where
  "Map_obj m [] t h = (([], t), h)"
| "Map_obj m (a # rows) t h =
     (case mapper_call_obj m a h of
        ((out, Some e), h') \<Rightarrow> ((out, Some e), h')
      | ((out, None), h') \<Rightarrow>
          (case Map_obj m rows t h' of ((out', t'), h'') \<Rightarrow> ((out @ out', t'), h'')))"

section \<open>Graphs\<close>

text \<open>
  The operations a graph node can hold. Mappers, reducers and joiners are the callables
  handed to \<^verbatim>\<open>Graph.map\<close>, \<^verbatim>\<open>Graph.reduce\<close> and \<^verbatim>\<open>Graph.join\<close>; the library's own are
  \<open>mapper_call m\<close>, \<open>FirstReducer\<close> and \<open>joiner_call j\<close>.
\<close>

datatype operation =
    Read string "string \<Rightarrow> error + row"
  | ReadIterGenerator string
  | Map mapper_fn
  | Reduce reducer "string list"
  | Join joiner_fn "string list"
  | ExternalSort "string list"

datatype graph = Graph (operation: operation) (parents: "graph list")

text \<open>
  What a run depends on besides the graph and the keyword arguments: the files \<^verbatim>\<open>Read\<close>
  opens, and the module \<^verbatim>\<open>external_sort\<close>, which \<^verbatim>\<open>graph.py\<close> imports and whose source is
  not part of the repository's files: the call of an \<^verbatim>\<open>ExternalSort(keys)\<close> on a stream
  is a parameter.
\<close>

record world =
  ext_sort :: "string list \<Rightarrow> row pystream \<Rightarrow> row pystream"
  files :: "string \<rightharpoonup> string list"

fun Read_loop :: "(string \<Rightarrow> error + row) \<Rightarrow> string list \<Rightarrow> row pystream" where
  "Read_loop parser [] = ([], None)"
| "Read_loop parser (line # lines) =
     (case parser line of
        Inl e \<Rightarrow> ([], Some e)
      | Inr r \<Rightarrow> (r # fst (Read_loop parser lines), snd (Read_loop parser lines)))"

text \<open>
  \<^verbatim>\<open>self._operation(*parents_run, **kwargs)\<close>. A keyword argument \<open>kwargs name\<close> is the
  stream that calling the supplier and iterating over its result gives. \<^verbatim>\<open>Map\<close>,
  \<^verbatim>\<open>Reduce\<close>, \<^verbatim>\<open>Join\<close> and the sort take \<^verbatim>\<open>rows\<close> as their first positional argument
  (\<^verbatim>\<open>TypeError\<close> without it), \<^verbatim>\<open>Join\<close> reads \<^verbatim>\<open>args[0]\<close> (\<^verbatim>\<open>IndexError\<close> without it), and
  further positional arguments are ignored.
\<close>

fun operation_call ::
  "world \<Rightarrow> (string \<rightharpoonup> row pystream) \<Rightarrow> operation \<Rightarrow> row pystream list \<Rightarrow> row pystream" where
  "operation_call W kwargs (Read filename parser) args =
     (case files W filename of None \<Rightarrow> ([], Some OSError) | Some lines \<Rightarrow> Read_loop parser lines)"
| "operation_call W kwargs (ReadIterGenerator name) args =
     (case kwargs name of None \<Rightarrow> ([], Some (KeyError name)) | Some rows \<Rightarrow> rows)"
| "operation_call W kwargs (Map mapper) (rows # args) = Map_call mapper rows"
| "operation_call W kwargs (Reduce reducer keys) (rows # args) = Reduce_call reducer keys rows"
| "operation_call W kwargs (Join joiner keys) (rows # rows1 # args) = Join_call joiner keys rows rows1"
| "operation_call W kwargs (Join joiner keys) [rows] = ([], Some IndexError)"
| "operation_call W kwargs (ExternalSort keys) (rows # args) = ext_sort W keys rows"
| "operation_call W kwargs op [] = ([], Some TypeError)"

text \<open>
  \<^verbatim>\<open>Graph.run\<close>: the parents' streams, then the node's operation on them. Rows are values
  here and a keyword argument is the stream of row values its supplier gives: this is the
  run as it is when no row object reaches two consumers, as with sources that build their
  rows on every call (\<^verbatim>\<open>Read\<close> does). The run over row objects that the caller keeps, into
  which the mappers assign, is \<open>run_obj\<close> in the section on graphs of objects.
\<close>

fun run :: "world \<Rightarrow> graph \<Rightarrow> (string \<rightharpoonup> row pystream) \<Rightarrow> row pystream" where
  "run W (Graph op ps) kwargs = operation_call W kwargs op (map (\<lambda>parent. run W parent kwargs) ps)"

definition graph_from_iter :: "string \<Rightarrow> graph" where
  "graph_from_iter name = Graph (ReadIterGenerator name) []"

definition graph_from_file :: "string \<Rightarrow> (string \<Rightarrow> error + row) \<Rightarrow> graph" where
  "graph_from_file filename parser = Graph (Read filename parser) []"



definition graph_sort :: "graph \<Rightarrow> string list \<Rightarrow> graph" where
  "graph_sort g keys = Graph (ExternalSort keys) [g]"







section \<open>Graphs of objects\<close>

text \<open>
  The run of a graph over row objects that the caller holds. A generator is resumed in a
  store: it runs to its next \<^verbatim>\<open>yield\<close>, handing out a row object, the store it leaves and
  the generator it has become, or to its end, normal (\<open>None\<close>) or with an exception.
  Nothing of a generator runs before it is resumed, and what it does on being resumed
  depends on the store it finds.
\<close>

datatype gen = Gen (resume: "store \<Rightarrow> step")
  and step = Yield nat gen store | Stop "error option" store

text \<open>
  A consumer that takes every row of a generator, such as \<^verbatim>\<open>for row in graph.run(...)\<close>:
  the objects yielded, each with the contents it had when it was yielded, how the
  generator ended, and the store it leaves.
\<close>

primrec consume :: "gen \<Rightarrow> store \<Rightarrow> (nat \<times> row) pystream \<times> store"
  and consume_step :: "step \<Rightarrow> (nat \<times> row) pystream \<times> store" where
  "consume (Gen f) h = consume_step (f h)"
| "consume_step (Yield a g h) =
     (case consume g h of ((out, t), h') \<Rightarrow> (((a, h ! a) # out, t), h'))"
| "consume_step (Stop t h) = (([], t), h)"

definition raise_gen :: "error \<Rightarrow> gen" where
  "raise_gen e = Gen (Stop (Some e))"

text \<open>An iterator over row objects the caller holds, \<^verbatim>\<open>iter(rows)\<close>, ending as \<open>t\<close> says.\<close>

primrec iter_gen :: "nat list \<Rightarrow> error option \<Rightarrow> gen" where
  "iter_gen [] t = Gen (Stop t)"
| "iter_gen (a # rows) t = Gen (Yield a (iter_gen rows t))"

primrec yield_each :: "nat list \<Rightarrow> gen \<Rightarrow> gen" where
  "yield_each [] g = g"
| "yield_each (a # out) g = Gen (Yield a (yield_each out g))"

text \<open>
  \<^verbatim>\<open>Map.__call__\<close>, \<^verbatim>\<open>for row in rows: yield from self.mapper(row)\<close>, as a generator: resumed,
  it resumes \<^verbatim>\<open>rows\<close>; on a row it runs the mapper on that object in the store \<^verbatim>\<open>rows\<close>
  left (the mappers of the model do all their work before their one \<^verbatim>\<open>yield\<close>), yields
  what the mapper yields and goes on with the rest of \<^verbatim>\<open>rows\<close>.
\<close>

primrec Map_gen :: "mapper \<Rightarrow> gen \<Rightarrow> gen"
  and Map_step :: "mapper \<Rightarrow> step \<Rightarrow> step" where
  "Map_gen m (Gen f) = Gen (\<lambda>h. Map_step m (f h))"
| "Map_step m (Yield a rows h) =
     (case mapper_call_obj m a h of
        ((out, t), h') \<Rightarrow>
          resume (yield_each out (case t of None \<Rightarrow> Map_gen m rows | Some e \<Rightarrow> raise_gen e)) h')"
| "Map_step m (Stop t h) = Stop t h"

text \<open>
  An \<^verbatim>\<open>Operation\<close> is an object that is called with the parents' generators and the keyword
  arguments and gives a generator; the operations of \<^verbatim>\<open>operations.py\<close> keep no state between
  two calls. A keyword argument \<open>kwargs name\<close> is the generator that calling the supplier
  and iterating over its result gives, the same on every call.
\<close>

type_synonym operation_obj = "gen list \<Rightarrow> (string \<rightharpoonup> gen) \<Rightarrow> gen"

definition ReadIterGenerator_op :: "string \<Rightarrow> operation_obj" where
  "ReadIterGenerator_op name args kwargs =
     (case kwargs name of None \<Rightarrow> raise_gen (KeyError name) | Some rows \<Rightarrow> rows)"

definition Map_op :: "mapper \<Rightarrow> operation_obj" where
  "Map_op m args kwargs = (case args of [] \<Rightarrow> raise_gen TypeError | rows # _ \<Rightarrow> Map_gen m rows)"

text \<open>
  A \<^verbatim>\<open>Graph\<close> object: its address, and its two fields \<^verbatim>\<open>_operation\<close> and \<^verbatim>\<open>_parents\<close>, which
  \<^verbatim>\<open>graph.py\<close> sets in \<^verbatim>\<open>__init__\<close> and never assigns again. \<^verbatim>\<open>Graph(operation, parents)\<close>
  allocates the object at the next free address \<open>n\<close>.
\<close>

datatype graph_obj =
  GraphObj (address: nat) (obj_operation: operation_obj) (obj_parents: "graph_obj list")

definition Graph_init :: "nat \<Rightarrow> operation_obj \<Rightarrow> graph_obj list \<Rightarrow> graph_obj \<times> nat" where
  "Graph_init n op ps = (GraphObj n op ps, Suc n)"

text \<open>\<^verbatim>\<open>Graph.copy\<close>: \<^verbatim>\<open>return Graph(self._operation, self._parents)\<close>.\<close>

definition copy :: "nat \<Rightarrow> graph_obj \<Rightarrow> graph_obj \<times> nat" where
  "copy n g = Graph_init n (obj_operation g) (obj_parents g)"

definition graph_from_iter_obj :: "nat \<Rightarrow> string \<Rightarrow> graph_obj \<times> nat" where
  "graph_from_iter_obj n name = Graph_init n (ReadIterGenerator_op name) []"

definition graph_map_obj :: "nat \<Rightarrow> graph_obj \<Rightarrow> mapper \<Rightarrow> graph_obj \<times> nat" where
  "graph_map_obj n g m = Graph_init n (Map_op m) [g]"

text \<open>
  \<^verbatim>\<open>Graph.run\<close>: \<^verbatim>\<open>parents_run = [parent.run(**kwargs) for parent in self._parents]\<close>, then
  \<^verbatim>\<open>yield from self._operation(*parents_run, **kwargs)\<close>. Making the parents' generators
  runs nothing of them.
\<close>

fun run_obj :: "graph_obj \<Rightarrow> (string \<rightharpoonup> gen) \<Rightarrow> gen" where
  "run_obj (GraphObj i op ps) kwargs = op (map (\<lambda>parent. run_obj parent kwargs) ps) kwargs"

text \<open>The addresses of a graph object and of the objects it reaches; all of them allocated.\<close>

fun addresses :: "graph_obj \<Rightarrow> nat set" where
  "addresses (GraphObj i op ps) = insert i (\<Union>p \<in> set ps. addresses p)"

definition allocated :: "nat \<Rightarrow> graph_obj \<Rightarrow> bool" where
  "allocated n g = (\<forall>i \<in> addresses g. i < n)"

section \<open>External sort\<close>

text \<open>
  The module \<^verbatim>\<open>external_sort\<close> with the class \<^verbatim>\<open>ExternalSort\<close>, which \<^verbatim>\<open>graph.py\<close> imports, is
  not among the repository's source files. The specification gives its algorithm: read
  the input into buffers of up to \<open>CHUNK\<close> rows; sort each buffer stably by the key tuple;
  when the first buffer holds the whole input emit it; otherwise merge the sorted runs
  with a heap keyed by the pair of key tuple and run index. The key tuples are compared
  by a linear order.
\<close>

text \<open>
  Modelled from the spec: the buffers \<^verbatim>\<open>ExternalSort\<close> (module \<^verbatim>\<open>external_sort\<close>, missing)
  reads its input into, each of \<open>n\<close> rows but the last.
\<close>

function chunks :: "nat \<Rightarrow> 'a list \<Rightarrow> 'a list list" where
  "chunks n xs = (if n = 0 \<or> xs = [] then [] else take n xs # chunks n (drop n xs))"
  by pat_completeness auto
termination
  by (relation "measure (\<lambda>(n, xs). length xs)") auto

declare chunks.simps [simp del]

text \<open>
  Modelled from the spec: one step of the k-way merge of \<^verbatim>\<open>ExternalSort\<close> (module
  \<^verbatim>\<open>external_sort\<close>, missing), "using a min-heap keyed by (key_tuple, run_index)": the head
  of the run whose pair of head key and run index is least, and the runs without that
  row. Among equal keys the run with the least index wins.
\<close>

fun pop_least :: "('a \<Rightarrow> 'k::linorder) \<Rightarrow> 'a list list \<Rightarrow> ('a \<times> 'a list list) option" where
  "pop_least key [] = None"
| "pop_least key (r # rs) =
     (case pop_least key rs of
        None \<Rightarrow> (case r of [] \<Rightarrow> None | x # r' \<Rightarrow> Some (x, r' # rs))
      | Some (y, rs') \<Rightarrow>
          (case r of
             [] \<Rightarrow> Some (y, [] # rs')
           | x # r' \<Rightarrow> if key x \<le> key y then Some (x, r' # rs) else Some (y, r # rs')))"

lemma pop_least_shorter:
  "pop_least key runs = Some (x, runs') \<Longrightarrow> length (concat runs) = Suc (length (concat runs'))"
  by (induction runs arbitrary: x runs')
    (fastforce split: option.splits list.splits if_splits)+

text \<open>
  Modelled from the spec: the k-way merge of the sorted runs of \<^verbatim>\<open>ExternalSort\<close> (module
  \<^verbatim>\<open>external_sort\<close>, missing): rows are emitted one by one until every run is empty.
\<close>

function kway_merge :: "('a \<Rightarrow> 'k::linorder) \<Rightarrow> 'a list list \<Rightarrow> 'a list" where
  "kway_merge key runs =
     (case pop_least key runs of None \<Rightarrow> [] | Some (x, runs') \<Rightarrow> x # kway_merge key runs')"
  by pat_completeness auto
termination
  by (relation "measure (\<lambda>(key, runs). length (concat runs))") (auto dest: pop_least_shorter)

declare kway_merge.simps [simp del]

text \<open>
  Modelled from the spec: the sort of \<^verbatim>\<open>ExternalSort\<close> (module \<^verbatim>\<open>external_sort\<close>, missing) on
  the rows of its input, for a buffer size \<open>chunk\<close> and a key projection: the stably sorted
  buffer when no run was spilled, the merge of the stably sorted buffers otherwise.
\<close>

definition external_sort :: "nat \<Rightarrow> ('a \<Rightarrow> 'k::linorder) \<Rightarrow> 'a list \<Rightarrow> 'a list" where
  "external_sort chunk key xs =
     (if length xs \<le> chunk then sort_key key xs
      else kway_merge key (map (sort_key key) (chunks chunk xs)))"

text \<open>
  Modelled from the spec: the call of an \<^verbatim>\<open>ExternalSort(keys)\<close> (module \<^verbatim>\<open>external_sort\<close>,
  missing) on a stream, for a projection \<open>proj keys\<close> of rows to their key tuples: the
  whole input is read before a row is emitted, so an exception of the input ends the sort
  without a row.
\<close>

definition ExternalSort_call ::
  "nat \<Rightarrow> (string list \<Rightarrow> row \<Rightarrow> 'k::linorder) \<Rightarrow> string list \<Rightarrow> row pystream \<Rightarrow> row pystream" where
  "ExternalSort_call chunk proj keys rows =
     (case snd rows of
        None \<Rightarrow> (external_sort chunk (proj keys) (fst rows), None)
      | Some e \<Rightarrow> ([], Some e))"

text \<open>
  Modelled from the spec: the key tuple of a row, "the projection of a Row onto an
  ordered sequence of column names; compared lexicographically", for key columns that
  hold integers (the value of any other column counts as 0).
\<close>

definition int_key_tuple :: "string list \<Rightarrow> row \<Rightarrow> int list" where
  "int_key_tuple keys r = map (\<lambda>c. case map_of r c of Some (VInt i) \<Rightarrow> i | _ \<Rightarrow> 0) keys"

section \<open>Properties\<close>

lemma tuple_gt_single: "tuple_gt [x] [y] = py_gt x y"
  by (cases x; cases y) simp_all

lemma tuple_lt_single: "tuple_lt [x] [y] = py_lt x y"
  by (cases x; cases y) simp_all

lemma tuple_eq_single: "tuple_eq [x] [y] = py_eq x y"
  by simp

subsection \<open>Safe group-by raises exactly on a decreasing key\<close>

lemma py_gt_err: "py_gt x y = Inl e \<Longrightarrow> e = TypeError"
  by (cases x; cases y) auto

lemma tuple_gt_err: "tuple_gt a b = Inl e \<Longrightarrow> e = TypeError"
  by (induction a b rule: tuple_gt.induct) (auto split: if_splits dest: py_gt_err)

lemma itemgetter_ok:
  "(\<forall>k \<in> set keys. map_of r k \<noteq> None) \<Longrightarrow> \<exists>vs. itemgetter keys r = Inr vs"
  by (induction keys) auto

lemma keyed_ok:
  "(\<forall>r \<in> set rs. \<forall>k \<in> set keys. map_of r k \<noteq> None) \<Longrightarrow> snd (keyed keys rs t) = t"
proof (induction rs)
  case Nil
  then show ?case by simp
next
  case (Cons r rs)
  then obtain vs where "itemgetter keys r = Inr vs" using itemgetter_ok[of keys r] by auto
  moreover have "snd (keyed keys rs t) = t" using Cons by simp
  ultimately show ?case by (cases "keyed keys rs t") simp
qed

lemma safe_groups_unsorted:
  assumes "\<forall>i. Suc i < length (g # gs) \<longrightarrow> comparable_at (g # gs) i"
    and "t \<noteq> Some unsorted"
  shows "snd (safe_groups g gs t) = Some unsorted \<longleftrightarrow> (\<exists>i. decreasing_at (g # gs) i)"
  using assms
proof (induction gs arbitrary: g)
  case Nil
  then show ?case by (cases g) (simp add: decreasing_at_def)
next
  case (Cons h gs)
  obtain pk pg where g: "g = (pk, pg)" by (cases g)
  obtain k g' where h: "h = (k, g')" by (cases h)
  have c0: "tuple_gt pk k \<noteq> Inl TypeError"
    using Cons.prems(1)[rule_format, of 0] by (simp add: comparable_at_def g h)
  have cs: "\<forall>i. Suc i < length (h # gs) \<longrightarrow> comparable_at (h # gs) i"
  proof (intro allI impI)
    fix i assume "Suc i < length (h # gs)"
    then have "comparable_at (g # h # gs) (Suc i)" using Cons.prems(1) by simp
    then show "comparable_at (h # gs) i" by (simp add: comparable_at_def)
  qed
  have shift: "(\<exists>i. decreasing_at (g # h # gs) i) \<longleftrightarrow>
      tuple_gt pk k = Inr True \<or> (\<exists>i. decreasing_at (h # gs) i)"
  proof
    assume "\<exists>i. decreasing_at (g # h # gs) i"
    then obtain i where i: "decreasing_at (g # h # gs) i" ..
    show "tuple_gt pk k = Inr True \<or> (\<exists>i. decreasing_at (h # gs) i)"
    proof (cases i)
      case 0
      with i show ?thesis by (simp add: decreasing_at_def g h)
    next
      case (Suc j)
      with i have "decreasing_at (h # gs) j" by (simp add: decreasing_at_def)
      then show ?thesis by blast
    qed
  next
    assume "tuple_gt pk k = Inr True \<or> (\<exists>i. decreasing_at (h # gs) i)"
    then show "\<exists>i. decreasing_at (g # h # gs) i"
    proof
      assume "tuple_gt pk k = Inr True"
      then have "decreasing_at (g # h # gs) 0" by (simp add: decreasing_at_def g h)
      then show ?thesis ..
    next
      assume "\<exists>i. decreasing_at (h # gs) i"
      then obtain j where "decreasing_at (h # gs) j" ..
      then have "decreasing_at (g # h # gs) (Suc j)" by (simp add: decreasing_at_def)
      then show ?thesis ..
    qed
  qed
  show ?case
  proof (cases "tuple_gt pk k")
    case (Inl e)
    with c0 tuple_gt_err show ?thesis by blast
  next
    case (Inr b)
    show ?thesis
    proof (cases b)
      case True
      with Inr shift show ?thesis by (simp add: g h unsorted_def)
    next
      case False
      have "snd (safe_groups g (h # gs) t) = snd (safe_groups h gs t)"
        using Inr False by (simp add: g h split: prod.splits)
      with Cons.IH[OF cs Cons.prems(2)] shift Inr False show ?thesis by simp
    qed
  qed
qed

text \<open>
  Claim C3. For a non-empty key tuple and a stream whose rows all hold the key columns and
  whose neighbouring groups have comparable keys, \<^verbatim>\<open>_safe_groupby\<close>, consumed to its end,
  raises \<^verbatim>\<open>ValueError('Stream is not sorted by keys')\<close> if and only if some group's key is
  strictly greater than the key of the group that follows it.
\<close>

theorem unsorted_iff_decreasing:
  assumes "keys \<noteq> []"
    and "\<forall>r \<in> set rs. \<forall>k \<in> set keys. map_of r k \<noteq> None"
    and "\<forall>i. Suc i < length (stream_groups keys (rs, None)) \<longrightarrow>
           comparable_at (stream_groups keys (rs, None)) i"
  shows "snd (safe_groupby (rs, None) keys) = Some unsorted
     \<longleftrightarrow> (\<exists>i. decreasing_at (stream_groups keys (rs, None)) i)"
proof -
  obtain xs t where k: "keyed keys rs None = (xs, t)" by (cases "keyed keys rs None")
  have t: "t = None" using keyed_ok[OF assms(2), of None] k by simp
  show ?thesis
  proof (cases "groupby xs")
    case Nil
    then show ?thesis
      using assms(1) k t
      by (simp add: safe_groupby_def stream_groups_def decreasing_at_def
          unsorted_def stop_iteration_in_generator_def)
  next
    case (Cons g gs)
    have "snd (safe_groups g gs None) = Some unsorted \<longleftrightarrow> (\<exists>i. decreasing_at (g # gs) i)"
      using assms(3) k Cons by (intro safe_groups_unsorted) (simp_all add: stream_groups_def)
    then show ?thesis
      using assms(1) k t Cons by (simp add: safe_groupby_def stream_groups_def)
  qed
qed

theorem unsorted_iff_decreasing_witness:
  "snd (safe_groupby ([[(''k'', VInt 2)], [(''k'', VInt 1)]], None) [''k'']) = Some unsorted
   \<and> decreasing_at (stream_groups [''k''] ([[(''k'', VInt 2)], [(''k'', VInt 1)]], None)) 0
   \<and> snd (safe_groupby ([[(''k'', VInt 1)], [(''k'', VInt 1)], [(''k'', VInt 3)]], None) [''k'']) = None"
proof -
  let ?rs = "[[(''k'', VInt 2)], [(''k'', VInt 1)]] :: row list"
  have g: "stream_groups [''k''] (?rs, None) = [([VInt 2], [[(''k'', VInt 2)]]), ([VInt 1], [[(''k'', VInt 1)]])]"
    by (simp add: stream_groups_def)
  have d: "decreasing_at (stream_groups [''k''] (?rs, None)) 0"
    by (simp add: g decreasing_at_def)
  have c: "\<forall>i. Suc i < length (stream_groups [''k''] (?rs, None)) \<longrightarrow>
           comparable_at (stream_groups [''k''] (?rs, None)) i"
    by (simp add: g comparable_at_def)
  have "snd (safe_groupby (?rs, None) [''k'']) = Some unsorted"
    using unsorted_iff_decreasing[of "[''k'']" ?rs, OF _ _ c] d by auto
  moreover have "snd (safe_groupby ([[(''k'', VInt 1)], [(''k'', VInt 1)], [(''k'', VInt 3)]], None) [''k'']) = None"
    by (simp add: safe_groupby_def)
  ultimately show ?thesis using d by simp
qed

subsection \<open>Empty inputs\<close>






subsection \<open>The merge loop of Join\<close>

lemma py_trichotomy:
  "\<not> py_eq x y \<Longrightarrow> py_gt x y = Inr False \<Longrightarrow> py_lt x y = Inr True"
  by (cases x; cases y) auto

lemma py_lt_not_eq_gt: "py_lt x y = Inr True \<Longrightarrow> \<not> py_eq x y \<and> py_gt x y = Inr False"
  by (cases x; cases y) auto

lemma py_gt_not_eq: "py_gt x y = Inr True \<Longrightarrow> \<not> py_eq x y"
  by (cases x; cases y) auto

lemma tuple_trichotomy:
  "\<not> tuple_eq a b \<Longrightarrow> tuple_gt a b = Inr False \<Longrightarrow> tuple_lt a b = Inr True"
  by (induction a b rule: tuple_gt.induct) (auto split: if_splits dest: py_trichotomy)

lemma tuple_lt_not_eq_gt: "tuple_lt a b = Inr True \<Longrightarrow> \<not> tuple_eq a b \<and> tuple_gt a b = Inr False"
  by (induction a b rule: tuple_gt.induct) (auto split: if_splits dest: py_lt_not_eq_gt)

lemma tuple_gt_not_eq: "tuple_gt a b = Inr True \<Longrightarrow> \<not> tuple_eq a b"
  by (induction a b rule: tuple_gt.induct) (auto split: if_splits dest: py_gt_not_eq)

lemma join_loop_left_only:
  "join_loop J keys (Some l) (items, t) None R
     = delegate_each (\<lambda>g. J keys (snd g) ([], None)) (l # items) t"
proof (induction items arbitrary: l)
  case Nil
  then show ?case by (cases t) (simp_all add: delegate_each_def yield_from_then_def)
next
  case (Cons g items)
  then show ?case by (simp add: delegate_each_def)
qed

lemma join_loop_right_only:
  "join_loop J keys None L (Some r) (items, t)
     = delegate_each (\<lambda>g. J keys ([], None) (snd g)) (r # items) t"
proof (induction items arbitrary: r)
  case Nil
  then show ?case by (cases t) (simp_all add: delegate_each_def yield_from_then_def)
next
  case (Cons g items)
  then show ?case by (simp add: delegate_each_def)
qed

lemma next_default_end:
  "next_default s = Inr n \<Longrightarrow> snd (snd n) = snd s"
  "next_default s = Inl e \<Longrightarrow> snd s = Some e"
  by (auto elim!: next_default.elims)

lemma yield_no_spin:
  "snd a \<noteq> Some Spins \<Longrightarrow> snd b \<noteq> Some Spins \<Longrightarrow> snd (yield_from_then a b) \<noteq> Some Spins"
  by (auto simp: yield_from_then_def split: option.splits)

lemma advance_no_spin:
  assumes "snd s \<noteq> Some Spins"
    and "\<And>n. next_default s = Inr n \<Longrightarrow> snd (k n) \<noteq> Some Spins"
  shows "snd (case next_default s of Inl e \<Rightarrow> ([], Some e) | Inr n \<Rightarrow> k n) \<noteq> Some Spins"
proof (cases "next_default s")
  case (Inl e)
  with assms(1) next_default_end(2)[OF Inl] show ?thesis by simp
next
  case (Inr n)
  with assms(2) show ?thesis by simp
qed

text \<open>
  The branch of the loop where the two keys are neither equal, nor greater, nor smaller
  cannot be taken on the model's values: the loop never goes round without advancing.
\<close>

lemma join_loop_never_spins:
  assumes "\<And>a b. snd (J keys a b) \<noteq> Some Spins" "snd L \<noteq> Some Spins" "snd R \<noteq> Some Spins"
  shows "snd (join_loop J keys cl L cr R) \<noteq> Some Spins"
  using assms
proof (induction J keys cl L cr R rule: join_loop.induct)
  case (1 J keys l L r R)
  note J = "1.prems"(1) and pL = "1.prems"(2) and pR = "1.prems"(3)
  show ?case
  proof (cases "tuple_eq (fst l) (fst r)")
    case True
    have "snd (case next_default L of Inl e \<Rightarrow> ([], Some e)
         | Inr nl \<Rightarrow> (case next_default R of Inl e \<Rightarrow> ([], Some e)
            | Inr nr \<Rightarrow> join_loop J keys (fst nl) (snd nl) (fst nr) (snd nr))) \<noteq> Some Spins"
    proof (rule advance_no_spin[OF pL], rule advance_no_spin[OF pR])
      fix nl nr assume nl: "next_default L = Inr nl" and nr: "next_default R = Inr nr"
      show "snd (join_loop J keys (fst nl) (snd nl) (fst nr) (snd nr)) \<noteq> Some Spins"
        using "1.IH"(1) True nl nr J pL pR next_default_end(1)[OF nl] next_default_end(1)[OF nr]
        by simp
    qed
    then show ?thesis using True by (simp add: yield_no_spin J)
  next
    case False
    show ?thesis
    proof (cases "tuple_gt (fst l) (fst r)")
      case (Inl e)
      with False tuple_gt_err[OF Inl] show ?thesis by simp
    next
      case (Inr b)
      show ?thesis
      proof (cases b)
        case True
        have "snd (case next_default R of Inl e \<Rightarrow> ([], Some e)
            | Inr nr \<Rightarrow> join_loop J keys (Some l) L (fst nr) (snd nr)) \<noteq> Some Spins"
        proof (rule advance_no_spin[OF pR])
          fix nr assume nr: "next_default R = Inr nr"
          show "snd (join_loop J keys (Some l) L (fst nr) (snd nr)) \<noteq> Some Spins"
            using "1.IH"(2) False Inr True nr J pL pR next_default_end(1)[OF nr] by simp
        qed
        then show ?thesis using False Inr True by (simp add: yield_no_spin J)
      next
        case F: False
        have lt: "tuple_lt (fst l) (fst r) = Inr True"
          using tuple_trichotomy False Inr F by simp
        have "snd (case next_default L of Inl e \<Rightarrow> ([], Some e)
            | Inr nl \<Rightarrow> join_loop J keys (fst nl) (snd nl) (Some r) R) \<noteq> Some Spins"
        proof (rule advance_no_spin[OF pL])
          fix nl assume nl: "next_default L = Inr nl"
          show "snd (join_loop J keys (fst nl) (snd nl) (Some r) R) \<noteq> Some Spins"
            using "1.IH"(3) False Inr F lt nl J pL pR next_default_end(1)[OF nl] by simp
        qed
        then show ?thesis using False Inr F lt by (simp add: yield_no_spin J)
      qed
    qed
  qed
next
  case (2 J keys l L R)
  have "snd (case next_default L of Inl e \<Rightarrow> ([], Some e)
      | Inr nl \<Rightarrow> join_loop J keys (fst nl) (snd nl) None R) \<noteq> Some Spins"
  proof (rule advance_no_spin[OF "2.prems"(2)])
    fix nl assume nl: "next_default L = Inr nl"
    show "snd (join_loop J keys (fst nl) (snd nl) None R) \<noteq> Some Spins"
      using "2.IH" nl "2.prems" next_default_end(1)[OF nl] by simp
  qed
  then show ?case by (simp add: yield_no_spin "2.prems"(1))
next
  case (3 J keys L r R)
  have "snd (case next_default R of Inl e \<Rightarrow> ([], Some e)
      | Inr nr \<Rightarrow> join_loop J keys None L (fst nr) (snd nr)) \<noteq> Some Spins"
  proof (rule advance_no_spin[OF "3.prems"(3)])
    fix nr assume nr: "next_default R = Inr nr"
    show "snd (join_loop J keys None L (fst nr) (snd nr)) \<noteq> Some Spins"
      using "3.IH" nr "3.prems" next_default_end(1)[OF nr] by simp
  qed
  then show ?case by (simp add: yield_no_spin "3.prems"(1))
next
  case (4 J keys L R)
  then show ?case by simp
qed

text \<open>
  Claim C2. The merge loop of \<^verbatim>\<open>Join.__call__\<close> over the two \<^verbatim>\<open>_safe_groupby\<close> generators:
  equal keys delegate both groups and advance both sides; a smaller left key delegates the
  left group against the empty group and advances the left only; a smaller right key
  delegates the empty group against the right group and advances the right only; once one
  side is exhausted every remaining group of the other side is delegated against the empty
  group; with both sides exhausted the output ends.
\<close>

theorem join_merge_loop:
  "Join_call J keys rows rows1 =
     (case next_default (safe_groupby rows keys) of
        Inl e \<Rightarrow> ([], Some e)
      | Inr nl \<Rightarrow>
          (case next_default (safe_groupby rows1 keys) of
             Inl e \<Rightarrow> ([], Some e)
           | Inr nr \<Rightarrow> join_loop J keys (fst nl) (snd nl) (fst nr) (snd nr)))
   \<and> (tuple_eq kl kr \<longrightarrow> next_default L = Inr (cl', L') \<longrightarrow> next_default R = Inr (cr', R') \<longrightarrow>
        join_loop J keys (Some (kl, gl)) L (Some (kr, gr)) R
          = yield_from_then (J keys gl gr) (join_loop J keys cl' L' cr' R'))
   \<and> (tuple_lt kl kr = Inr True \<longrightarrow> next_default L = Inr (cl', L') \<longrightarrow>
        join_loop J keys (Some (kl, gl)) L (Some (kr, gr)) R
          = yield_from_then (J keys gl ([], None)) (join_loop J keys cl' L' (Some (kr, gr)) R))
   \<and> (tuple_gt kl kr = Inr True \<longrightarrow> next_default R = Inr (cr', R') \<longrightarrow>
        join_loop J keys (Some (kl, gl)) L (Some (kr, gr)) R
          = yield_from_then (J keys ([], None) gr) (join_loop J keys (Some (kl, gl)) L cr' R'))
   \<and> join_loop J keys (Some (kl, gl)) (lgroups, lt) None R
        = delegate_each (\<lambda>g. J keys (snd g) ([], None)) ((kl, gl) # lgroups) lt
   \<and> join_loop J keys None L (Some (kr, gr)) (rgroups, rt)
        = delegate_each (\<lambda>g. J keys ([], None) (snd g)) ((kr, gr) # rgroups) rt
   \<and> join_loop J keys None L None R = ([], None)"
proof (intro conjI impI)
  show "Join_call J keys rows rows1 =
     (case next_default (safe_groupby rows keys) of
        Inl e \<Rightarrow> ([], Some e)
      | Inr nl \<Rightarrow>
          (case next_default (safe_groupby rows1 keys) of
             Inl e \<Rightarrow> ([], Some e)
           | Inr nr \<Rightarrow> join_loop J keys (fst nl) (snd nl) (fst nr) (snd nr)))"
    by (simp add: Join_call_def)
next
  assume "tuple_eq kl kr" "next_default L = Inr (cl', L')" "next_default R = Inr (cr', R')"
  then show "join_loop J keys (Some (kl, gl)) L (Some (kr, gr)) R
          = yield_from_then (J keys gl gr) (join_loop J keys cl' L' cr' R')"
    by simp
next
  assume lt: "tuple_lt kl kr = Inr True" and "next_default L = Inr (cl', L')"
  then show "join_loop J keys (Some (kl, gl)) L (Some (kr, gr)) R
          = yield_from_then (J keys gl ([], None)) (join_loop J keys cl' L' (Some (kr, gr)) R)"
    using tuple_lt_not_eq_gt[OF lt] by simp
next
  assume gt: "tuple_gt kl kr = Inr True" and "next_default R = Inr (cr', R')"
  then show "join_loop J keys (Some (kl, gl)) L (Some (kr, gr)) R
          = yield_from_then (J keys ([], None) gr) (join_loop J keys (Some (kl, gl)) L cr' R')"
    using tuple_gt_not_eq[OF gt] by simp
next
  show "join_loop J keys (Some (kl, gl)) (lgroups, lt) None R
        = delegate_each (\<lambda>g. J keys (snd g) ([], None)) ((kl, gl) # lgroups) lt"
    by (rule join_loop_left_only)
  show "join_loop J keys None L (Some (kr, gr)) (rgroups, rt)
        = delegate_each (\<lambda>g. J keys ([], None) (snd g)) ((kr, gr) # rgroups) rt"
    by (rule join_loop_right_only)
  show "join_loop J keys None L None R = ([], None)" by simp
qed

theorem join_merge_loop_witness:
  "Join_call (joiner_call (OuterJoiner ''_1'' ''_2'')) [''id'']
     ([[(''id'', VInt 1), (''v'', VStr ''a'')], [(''id'', VInt 3), (''v'', VStr ''b'')]], None)
     ([[(''id'', VInt 2), (''v'', VStr ''x'')], [(''id'', VInt 3), (''v'', VStr ''y'')]], None)
   = ([[(''id'', VInt 1), (''v'', VStr ''a'')],
       [(''id'', VInt 2), (''v'', VStr ''x'')],
       [(''id'', VInt 3), (''v_1'', VStr ''b''), (''v_2'', VStr ''y'')]], None)"
proof -
  let ?J = "joiner_call (OuterJoiner ''_1'' ''_2'')"
  let ?l1 = "[(''id'', VInt 1), (''v'', VStr ''a'')]" and ?l3 = "[(''id'', VInt 3), (''v'', VStr ''b'')]"
  let ?r2 = "[(''id'', VInt 2), (''v'', VStr ''x'')]" and ?r3 = "[(''id'', VInt 3), (''v'', VStr ''y'')]"
  let ?L = "([([VInt 3], ([?l3], None))], None) :: group pystream"
  let ?R = "([([VInt 3], ([?r3], None))], None) :: group pystream"
  let ?E = "([], None) :: group pystream"
  have start: "Join_call ?J [''id''] ([?l1, ?l3], None) ([?r2, ?r3], None)
      = join_loop ?J [''id''] (Some ([VInt 1], ([?l1], None))) ?L (Some ([VInt 2], ([?r2], None))) ?R"
    using join_merge_loop[of ?J "[''id'']" "([?l1, ?l3], None)" "([?r2, ?r3], None)"]
    by (simp add: safe_groupby_def)
  have s1: "join_loop ?J [''id''] (Some ([VInt 1], ([?l1], None))) ?L (Some ([VInt 2], ([?r2], None))) ?R
      = yield_from_then (?J [''id''] ([?l1], None) ([], None))
          (join_loop ?J [''id''] (Some ([VInt 3], ([?l3], None))) ?E (Some ([VInt 2], ([?r2], None))) ?R)"
    using join_merge_loop[of ?J "[''id'']" _ _ "[VInt 1]" "[VInt 2]" ?L "Some ([VInt 3], ([?l3], None))" ?E]
    by simp
  have s2: "join_loop ?J [''id''] (Some ([VInt 3], ([?l3], None))) ?E (Some ([VInt 2], ([?r2], None))) ?R
      = yield_from_then (?J [''id''] ([], None) ([?r2], None))
          (join_loop ?J [''id''] (Some ([VInt 3], ([?l3], None))) ?E (Some ([VInt 3], ([?r3], None))) ?E)"
    using join_merge_loop[of ?J "[''id'']" _ _ "[VInt 3]" "[VInt 2]" _ _ _ ?R "Some ([VInt 3], ([?r3], None))" ?E]
    by simp
  have s3: "join_loop ?J [''id''] (Some ([VInt 3], ([?l3], None))) ?E (Some ([VInt 3], ([?r3], None))) ?E
      = yield_from_then (?J [''id''] ([?l3], None) ([?r3], None)) (join_loop ?J [''id''] None ?E None ?E)"
    using join_merge_loop[of ?J "[''id'']" _ _ "[VInt 3]" "[VInt 3]" ?E None ?E ?E None ?E]
    by simp
  have s4: "join_loop ?J [''id''] None ?E None ?E = ([], None)"
    using join_merge_loop[of ?J "[''id'']"] by simp
  show ?thesis
    unfolding start s1 s2 s3 s4
    by (simp add: yield_from_then_def materialize_def common_join_part_def relevant_suffixes_def
        merge_rows_def join_step_def)
qed

subsection \<open>The combine step of the joiners\<close>

lemma join_step_other:
  "x \<noteq> fst kv \<Longrightarrow> x \<noteq> fst kv @ sa \<Longrightarrow> x \<noteq> fst kv @ sb \<Longrightarrow>
   map_of (join_step keys sa sb nr kv) x = map_of nr x"
  by (auto simp: join_step_def update_conv' delete_conv' split: option.splits)

lemma merge_untouched:
  "x \<notin> fst ` set ps \<Longrightarrow> (\<forall>k \<in> fst ` set ps. x \<noteq> k @ sa \<and> x \<noteq> k @ sb) \<Longrightarrow>
   map_of (foldl (join_step keys sa sb) nr ps) x = map_of nr x"
proof (induction ps arbitrary: nr)
  case Nil
  then show ?case by simp
next
  case (Cons p ps)
  have "map_of (foldl (join_step keys sa sb) (join_step keys sa sb nr p) ps) x
        = map_of (join_step keys sa sb nr p) x"
    using Cons.prems by (intro Cons.IH) auto
  also have "\<dots> = map_of nr x"
    using Cons.prems by (intro join_step_other) auto
  finally show ?case by simp
qed

lemma join_step_collide:
  assumes "map_of nr k = Some old" "k \<notin> set keys" "sa \<noteq> sb" "sa \<noteq> []" "sb \<noteq> []"
  shows "map_of (join_step keys sa sb nr (k, v)) (k @ sa) = Some v"
    and "map_of (join_step keys sa sb nr (k, v)) (k @ sb) = Some old"
    and "map_of (join_step keys sa sb nr (k, v)) k = None"
  using assms by (auto simp: join_step_def update_conv' delete_conv')

lemma merge_collision:
  assumes d: "distinct (map fst l)"
    and kl: "map_of l k = Some v" and kr: "map_of r k = Some w" and nk: "k \<notin> set keys"
    and s: "sa \<noteq> sb" "sa \<noteq> []" "sb \<noteq> []"
    and gen: "\<forall>k' \<in> fst ` set l. k' @ sa \<noteq> k \<and> k' @ sb \<noteq> k"
    and fresh: "k @ sa \<notin> fst ` set l" "k @ sb \<notin> fst ` set l"
    and cross: "\<forall>k' \<in> fst ` set l. k' @ sb \<noteq> k @ sa \<and> k' @ sa \<noteq> k @ sb"
  shows "map_of (merge_rows keys sa sb l r) (k @ sa) = Some v"
    and "map_of (merge_rows keys sa sb l r) (k @ sb) = Some w"
    and "map_of (merge_rows keys sa sb l r) k = None"
proof -
  let ?f = "join_step keys sa sb"
  from kl have "(k, v) \<in> set l" by (rule map_of_SomeD)
  then obtain ps qs where l: "l = ps @ (k, v) # qs" by (meson split_list)
  from d l have kps: "k \<notin> fst ` set ps" and kqs: "k \<notin> fst ` set qs" by auto
  have sub: "fst ` set ps \<subseteq> fst ` set l" "fst ` set qs \<subseteq> fst ` set l" using l by auto
  let ?m1 = "foldl ?f r ps"
  have m1: "map_of ?m1 k = Some w"
    using merge_untouched[of k ps sa sb keys r] kps gen sub kr by (metis subsetD)
  let ?m2 = "?f ?m1 (k, v)"
  have fin: "merge_rows keys sa sb l r = foldl ?f ?m2 qs"
    by (simp add: merge_rows_def l)
  have qk: "\<forall>k' \<in> fst ` set qs. k' \<noteq> k \<and> k' \<in> fst ` set l"
    using kqs sub by auto
  have qa: "\<forall>k' \<in> fst ` set qs. k @ sa \<noteq> k' @ sa \<and> k @ sa \<noteq> k' @ sb"
    using qk cross by (metis append_same_eq)
  have qb: "\<forall>k' \<in> fst ` set qs. k @ sb \<noteq> k' @ sa \<and> k @ sb \<noteq> k' @ sb"
    using qk cross by (metis append_same_eq)
  have qc: "\<forall>k' \<in> fst ` set qs. k \<noteq> k' @ sa \<and> k \<noteq> k' @ sb"
    using qk gen by metis
  have a: "map_of (foldl ?f ?m2 qs) (k @ sa) = map_of ?m2 (k @ sa)"
    using fresh(1) sub(2) qa by (intro merge_untouched) blast+
  have b: "map_of (foldl ?f ?m2 qs) (k @ sb) = map_of ?m2 (k @ sb)"
    using fresh(2) sub(2) qb by (intro merge_untouched) blast+
  have c: "map_of (foldl ?f ?m2 qs) k = map_of ?m2 k"
    using kqs qc by (intro merge_untouched) blast+
  show "map_of (merge_rows keys sa sb l r) (k @ sa) = Some v"
    using a join_step_collide(1)[OF m1 nk s] fin by simp
  show "map_of (merge_rows keys sa sb l r) (k @ sb) = Some w"
    using b join_step_collide(2)[OF m1 nk s] fin by simp
  show "map_of (merge_rows keys sa sb l r) k = None"
    using c join_step_collide(3)[OF m1 nk s] fin by simp
qed


lemma merge_plain:
  assumes d: "distinct (map fst l)" and kl: "map_of l k = Some v"
    and gen: "\<forall>k' \<in> fst ` set l. k' @ sa \<noteq> k \<and> k' @ sb \<noteq> k"
  shows "map_of r k = None \<Longrightarrow> map_of (merge_rows keys sa sb l r) k = Some v"
    and "map_of r k = Some w \<Longrightarrow> k \<in> set keys \<Longrightarrow> map_of (merge_rows keys sa sb l r) k = Some w"
proof -
  let ?f = "join_step keys sa sb"
  from kl have "(k, v) \<in> set l" by (rule map_of_SomeD)
  then obtain ps qs where l: "l = ps @ (k, v) # qs" by (meson split_list)
  from d l have kps: "k \<notin> fst ` set ps" and kqs: "k \<notin> fst ` set qs" by auto
  have sub: "fst ` set ps \<subseteq> fst ` set l" "fst ` set qs \<subseteq> fst ` set l" using l by auto
  let ?m1 = "foldl ?f r ps"
  have m1: "map_of ?m1 k = map_of r k"
    using kps gen sub(1) by (intro merge_untouched) blast+
  let ?m2 = "?f ?m1 (k, v)"
  have fin: "merge_rows keys sa sb l r = foldl ?f ?m2 qs"
    by (simp add: merge_rows_def l)
  have c: "map_of (foldl ?f ?m2 qs) k = map_of ?m2 k"
    using kqs gen sub(2) by (intro merge_untouched) blast+
  show "map_of r k = None \<Longrightarrow> map_of (merge_rows keys sa sb l r) k = Some v"
    using c m1 fin by (simp add: join_step_def update_conv')
  show "map_of r k = Some w \<Longrightarrow> k \<in> set keys \<Longrightarrow> map_of (merge_rows keys sa sb l r) k = Some w"
    using c m1 fin by (simp add: join_step_def)
qed

lemma default_suffix_cross: "k' @ ''_2'' \<noteq> k @ ''_1''" "k' @ ''_1'' \<noteq> k @ ''_2''"
  by simp_all

lemma nth_concat_map_map:
  "i < length L \<Longrightarrow> j < length R \<Longrightarrow>
   concat (map (\<lambda>l. map (f l) R) L) ! (i * length R + j) = f (L ! i) (R ! j)"
proof (induction L arbitrary: i)
  case Nil
  then show ?case by simp
next
  case (Cons l L)
  show ?case
  proof (cases i)
    case 0
    with Cons.prems show ?thesis by (simp add: nth_append)
  next
    case (Suc i')
    with Cons show ?thesis by (simp add: nth_append)
  qed
qed

lemma length_concat_map_map:
  "length (concat (map (\<lambda>l. map (f l) R) L)) = length L * length R"
  by (induction L) simp_all

text \<open>
  Claim C1, amended. \<^verbatim>\<open>common_join_part\<close> yields one row per pair, the left rows outermost.
  The row of a pair starts as the right row and takes the left row's items one by one: a
  key absent from the new row is appended with the left value; a join key present in the
  new row leaves it as it is; any other key \<open>k\<close> present in the new row is removed and
  \<open>k_1\<close> is bound to the left value, \<open>k_2\<close> to the value the new row held at \<open>k\<close>. When no
  column name of the left row is another of its column names followed by \<open>_1\<close> or \<open>_2\<close>,
  that value is the right row's and the yielded row holds, for every left column: the
  left value where the right row lacks the column, the right value of a join key, and
  \<open>k_1\<close>, \<open>k_2\<close> bound to the left and right values with \<open>k\<close> gone otherwise. The inner join
  of the specification's example yields the two rows it states.
\<close>

theorem combine_rows:
  "length (fst (common_join_part (InnerJoiner ''_1'' ''_2'') keys (left_rows, t) right_rows ''any''))
     = length left_rows * length right_rows
   \<and> (i < length left_rows \<longrightarrow> j < length right_rows \<longrightarrow>
        fst (common_join_part (InnerJoiner ''_1'' ''_2'') keys (left_rows, t) right_rows ''any'')
            ! (i * length right_rows + j)
          = merge_rows keys ''_1'' ''_2'' (left_rows ! i) (right_rows ! j))
   \<and> merge_rows keys ''_1'' ''_2'' lrow rrow = foldl (join_step keys ''_1'' ''_2'') rrow lrow
   \<and> (map_of new_row k = None \<longrightarrow>
        join_step keys ''_1'' ''_2'' new_row (k, v) = new_row @ [(k, v)])
   \<and> (map_of new_row k = Some w \<longrightarrow> k \<in> set keys \<longrightarrow>
        join_step keys ''_1'' ''_2'' new_row (k, v) = new_row)
   \<and> (map_of new_row k = Some w \<longrightarrow> k \<notin> set keys \<longrightarrow>
        map_of (join_step keys ''_1'' ''_2'' new_row (k, v))
          = (map_of new_row)(k := None, k @ ''_1'' \<mapsto> v, k @ ''_2'' \<mapsto> w))
   \<and> (distinct (map fst lrow) \<longrightarrow> plain_columns ''_1'' ''_2'' lrow \<longrightarrow> map_of lrow k = Some v \<longrightarrow>
        (case map_of rrow k of
           None \<Rightarrow> map_of (merge_rows keys ''_1'' ''_2'' lrow rrow) k = Some v
         | Some w \<Rightarrow>
             if k \<in> set keys then map_of (merge_rows keys ''_1'' ''_2'' lrow rrow) k = Some w
             else map_of (merge_rows keys ''_1'' ''_2'' lrow rrow) (k @ ''_1'') = Some v
                \<and> map_of (merge_rows keys ''_1'' ''_2'' lrow rrow) (k @ ''_2'') = Some w
                \<and> map_of (merge_rows keys ''_1'' ''_2'' lrow rrow) k = None))
   \<and> Join_call (joiner_call (InnerJoiner ''_1'' ''_2'')) [''id'']
        ([[(''id'', VInt 1), (''v'', VStr ''a'')], [(''id'', VInt 2), (''v'', VStr ''b'')]], None)
        ([[(''id'', VInt 1), (''v'', VStr ''x'')], [(''id'', VInt 2), (''v'', VStr ''y'')]], None)
      = ([[(''id'', VInt 1), (''v_1'', VStr ''a''), (''v_2'', VStr ''x'')],
          [(''id'', VInt 2), (''v_1'', VStr ''b''), (''v_2'', VStr ''y'')]], None)"
proof (intro conjI impI)
  show "length (fst (common_join_part (InnerJoiner ''_1'' ''_2'') keys (left_rows, t) right_rows ''any''))
     = length left_rows * length right_rows"
    by (simp add: common_join_part_def relevant_suffixes_def length_concat_map_map)
next
  assume "i < length left_rows" "j < length right_rows"
  then show "fst (common_join_part (InnerJoiner ''_1'' ''_2'') keys (left_rows, t) right_rows ''any'')
            ! (i * length right_rows + j)
          = merge_rows keys ''_1'' ''_2'' (left_rows ! i) (right_rows ! j)"
    by (simp add: common_join_part_def relevant_suffixes_def nth_concat_map_map)
next
  show "merge_rows keys ''_1'' ''_2'' lrow rrow = foldl (join_step keys ''_1'' ''_2'') rrow lrow"
    by (simp add: merge_rows_def)
next
  assume "map_of new_row k = None"
  then have "k \<notin> fst ` set new_row" by (simp add: map_of_eq_None_iff)
  then have "AList.update k v new_row = new_row @ [(k, v)]"
    by (induction new_row) auto
  then show "join_step keys ''_1'' ''_2'' new_row (k, v) = new_row @ [(k, v)]"
    using \<open>map_of new_row k = None\<close> by (simp add: join_step_def)
next
  assume "map_of new_row k = Some w" "k \<in> set keys"
  then show "join_step keys ''_1'' ''_2'' new_row (k, v) = new_row"
    by (simp add: join_step_def)
next
  assume "map_of new_row k = Some w" "k \<notin> set keys"
  then show "map_of (join_step keys ''_1'' ''_2'' new_row (k, v))
          = (map_of new_row)(k := None, k @ ''_1'' \<mapsto> v, k @ ''_2'' \<mapsto> w)"
    by (simp add: join_step_def update_conv' delete_conv')
next
  assume d: "distinct (map fst lrow)" and p: "plain_columns ''_1'' ''_2'' lrow"
    and kl: "map_of lrow k = Some v"
  have kin: "k \<in> fst ` set lrow" using kl by (metis domI dom_map_of_conv_image_fst)
  have gen: "\<forall>k' \<in> fst ` set lrow. k' @ ''_1'' \<noteq> k \<and> k' @ ''_2'' \<noteq> k"
    using p kin unfolding plain_columns_def by metis
  have fresh: "k @ ''_1'' \<notin> fst ` set lrow" "k @ ''_2'' \<notin> fst ` set lrow"
    using p kin unfolding plain_columns_def by blast+
  have cross: "\<forall>k' \<in> fst ` set lrow. k' @ ''_2'' \<noteq> k @ ''_1'' \<and> k' @ ''_1'' \<noteq> k @ ''_2''"
    by simp
  show "case map_of rrow k of
           None \<Rightarrow> map_of (merge_rows keys ''_1'' ''_2'' lrow rrow) k = Some v
         | Some w \<Rightarrow>
             if k \<in> set keys then map_of (merge_rows keys ''_1'' ''_2'' lrow rrow) k = Some w
             else map_of (merge_rows keys ''_1'' ''_2'' lrow rrow) (k @ ''_1'') = Some v
                \<and> map_of (merge_rows keys ''_1'' ''_2'' lrow rrow) (k @ ''_2'') = Some w
                \<and> map_of (merge_rows keys ''_1'' ''_2'' lrow rrow) k = None"
  proof (cases "map_of rrow k")
    case None
    then show ?thesis using merge_plain(1)[OF d kl gen] by simp
  next
    case (Some w')
    show ?thesis
    proof (cases "k \<in> set keys")
      case True
      then show ?thesis using merge_plain(2)[OF d kl gen Some] Some by simp
    next
      case False
      have s: "''_1'' \<noteq> ''_2''" "''_1'' \<noteq> []" "''_2'' \<noteq> []" by simp_all
      show ?thesis
        using merge_collision[OF d kl Some False s gen fresh cross] Some False by simp
    qed
  qed
next
  show "Join_call (joiner_call (InnerJoiner ''_1'' ''_2'')) [''id'']
        ([[(''id'', VInt 1), (''v'', VStr ''a'')], [(''id'', VInt 2), (''v'', VStr ''b'')]], None)
        ([[(''id'', VInt 1), (''v'', VStr ''x'')], [(''id'', VInt 2), (''v'', VStr ''y'')]], None)
      = ([[(''id'', VInt 1), (''v_1'', VStr ''a''), (''v_2'', VStr ''x'')],
          [(''id'', VInt 2), (''v_1'', VStr ''b''), (''v_2'', VStr ''y'')]], None)"
    by (simp add: Join_call_def safe_groupby_def yield_from_then_def materialize_def
        common_join_part_def relevant_suffixes_def merge_rows_def join_step_def)
qed

theorem combine_rows_witness:
  "map_of (merge_rows [''id''] ''_1'' ''_2''
      [(''id'', VInt 1), (''v'', VStr ''a''), (''n'', VInt 7)]
      [(''id'', VInt 1), (''v'', VStr ''x'')]) (''v'' @ ''_1'') = Some (VStr ''a'')
   \<and> map_of (merge_rows [''id''] ''_1'' ''_2''
      [(''id'', VInt 1), (''v'', VStr ''a''), (''n'', VInt 7)]
      [(''id'', VInt 1), (''v'', VStr ''x'')]) (''v'' @ ''_2'') = Some (VStr ''x'')
   \<and> map_of (merge_rows [''id''] ''_1'' ''_2''
      [(''id'', VInt 1), (''v'', VStr ''a''), (''n'', VInt 7)]
      [(''id'', VInt 1), (''v'', VStr ''x'')]) ''v'' = None
   \<and> fst (common_join_part (InnerJoiner ''_1'' ''_2'') [''id'']
        ([[(''id'', VInt 1), (''v'', VStr ''a''), (''n'', VInt 7)]], None)
        [[(''id'', VInt 1), (''v'', VStr ''x'')]] ''any'') ! 0
      = merge_rows [''id''] ''_1'' ''_2''
          [(''id'', VInt 1), (''v'', VStr ''a''), (''n'', VInt 7)] [(''id'', VInt 1), (''v'', VStr ''x'')]
   \<and> join_step [''id''] ''_1'' ''_2'' [(''id'', VInt 1)] (''n'', VInt 7) = [(''id'', VInt 1)] @ [(''n'', VInt 7)]
   \<and> join_step [''id''] ''_1'' ''_2'' [(''id'', VInt 1)] (''id'', VInt 1) = [(''id'', VInt 1)]
   \<and> map_of (join_step [''id''] ''_1'' ''_2'' [(''v'', VStr ''x'')] (''v'', VStr ''a''))
      = (map_of [(''v'', VStr ''x'')])(''v'' := None, ''v'' @ ''_1'' \<mapsto> VStr ''a'', ''v'' @ ''_2'' \<mapsto> VStr ''x'')"
proof -
  let ?l = "[(''id'', VInt 1), (''v'', VStr ''a''), (''n'', VInt 7)]"
  let ?r = "[(''id'', VInt 1), (''v'', VStr ''x'')]"
  have d: "distinct (map fst ?l)" by simp
  have p: "plain_columns ''_1'' ''_2'' ?l" by (simp add: plain_columns_def)
  have kl: "map_of ?l ''v'' = Some (VStr ''a'')" by simp
  note t = combine_rows[where keys = "[''id'']" and left_rows = "[?l]" and right_rows = "[?r]"
      and t = None and i = 0 and j = 0 and lrow = ?l and rrow = ?r and k = "''v''"
      and v = "VStr ''a''"]
  note c7 = t[where new_row = "[]" and w = "VStr ''x''", THEN conjunct2, THEN conjunct2, THEN conjunct2,
      THEN conjunct2, THEN conjunct2, THEN conjunct2, THEN conjunct1, rule_format, OF d p kl]
  have i0: "(0::nat) < length [?l]" "(0::nat) < length [?r]" by simp_all
  note c2 = t[where new_row = "[]" and w = "VStr ''x''", THEN conjunct2, THEN conjunct1, rule_format, OF i0]
  have n1: "map_of [(''id'', VInt 1)] ''n'' = None" by simp
  note c4 = combine_rows[where keys = "[''id'']" and new_row = "[(''id'', VInt 1)]" and k = "''n''"
      and v = "VInt 7", THEN conjunct2, THEN conjunct2, THEN conjunct2, THEN conjunct1,
      rule_format, OF n1]
  have n2: "map_of [(''id'', VInt 1)] ''id'' = Some (VInt 1)" "''id'' \<in> set [''id'']" by simp_all
  note c5 = combine_rows[where keys = "[''id'']" and new_row = "[(''id'', VInt 1)]" and k = "''id''"
      and v = "VInt 1" and w = "VInt 1", THEN conjunct2, THEN conjunct2, THEN conjunct2,
      THEN conjunct2, THEN conjunct1, rule_format, OF n2]
  have n3: "map_of [(''v'', VStr ''x'')] ''v'' = Some (VStr ''x'')" "''v'' \<notin> set [''id'']" by simp_all
  note c6 = combine_rows[where keys = "[''id'']" and new_row = "[(''v'', VStr ''x'')]" and k = "''v''"
      and v = "VStr ''a''" and w = "VStr ''x''", THEN conjunct2, THEN conjunct2, THEN conjunct2,
      THEN conjunct2, THEN conjunct2, THEN conjunct1, rule_format, OF n3]
  from c7 have a: "map_of (merge_rows [''id''] ''_1'' ''_2'' ?l ?r) (''v'' @ ''_1'') = Some (VStr ''a'')
     \<and> map_of (merge_rows [''id''] ''_1'' ''_2'' ?l ?r) (''v'' @ ''_2'') = Some (VStr ''x'')
     \<and> map_of (merge_rows [''id''] ''_1'' ''_2'' ?l ?r) ''v'' = None"
    by simp
  from c2 have b: "fst (common_join_part (InnerJoiner ''_1'' ''_2'') [''id''] ([?l], None) [?r] ''any'') ! 0
      = merge_rows [''id''] ''_1'' ''_2'' ?l ?r"
    by simp
  show ?thesis
    using a b c4 c5 c6 by blast
qed

theorem combine_rows_counterexample:
  "map_of [(''id'', VInt 1), (''v'', VStr ''a''), (''v_1'', VStr ''b'')] ''v_1'' = Some (VStr ''b'')
   \<and> map_of [(''id'', VInt 1), (''v'', VStr ''x''), (''v_1'', VStr ''y'')] ''v_1'' = Some (VStr ''y'')
   \<and> ''v_1'' \<notin> set [''id'']
   \<and> Join_call (joiner_call (InnerJoiner ''_1'' ''_2'')) [''id'']
        ([[(''id'', VInt 1), (''v'', VStr ''a''), (''v_1'', VStr ''b'')]], None)
        ([[(''id'', VInt 1), (''v'', VStr ''x''), (''v_1'', VStr ''y'')]], None)
      = ([[(''id'', VInt 1), (''v_2'', VStr ''x''), (''v_1_1'', VStr ''b''), (''v_1_2'', VStr ''a'')]], None)"
  by (simp add: Join_call_def safe_groupby_def yield_from_then_def materialize_def
      common_join_part_def relevant_suffixes_def merge_rows_def join_step_def)




subsection \<open>Divide\<close>

lemma float_limit_pos: "0 < float_limit"
  by (simp add: float_limit_def)

lemma py_truediv_zero:
  assumes "py_eq y (VInt 0)"
  shows "py_truediv x y =
     (case x of
        VStr s \<Rightarrow> Inl TypeError
      | VFloat a \<Rightarrow> Inl ZeroDivisionError
      | VInt a \<Rightarrow>
          (case y of
             VFloat b \<Rightarrow> if \<bar>a\<bar> < float_limit then Inl ZeroDivisionError else Inl OverflowError
           | _ \<Rightarrow> Inl ZeroDivisionError))"
  using assms float_limit_pos by (cases x; cases y) (auto simp: to_float_def)

text \<open>
  Claim C7, amended. On a row whose denominator column equals zero \<^verbatim>\<open>Divide\<close> yields
  nothing and fails, and which exception it fails with depends on the numerator.
  \<^item> The numerator is a float, or an \<^verbatim>\<open>int\<close> that is within the range of the floats or is
    divided by the \<^verbatim>\<open>int\<close> zero: the division raises \<^verbatim>\<open>ZeroDivisionError\<close>, which \<^verbatim>\<open>Divide\<close>
    catches, raising \<^verbatim>\<open>ValueError('Denominator column contains zero value')\<close> in its
    place; this is not an \<^verbatim>\<open>ArithmeticError\<close>. \<^verbatim>\<open>Map\<close> over a stream that starts with such a
    row fails with it, and the row object is left as it was.
  \<^item> The numerator is an \<^verbatim>\<open>int\<close> beyond the range of the floats and the denominator is the
    float zero: the conversion of the numerator raises \<^verbatim>\<open>OverflowError\<close> before the
    denominator is tested; \<^verbatim>\<open>Divide\<close> does not catch it, and it is an \<^verbatim>\<open>ArithmeticError\<close>.
  \<^item> The numerator is a string: \<^verbatim>\<open>TypeError\<close>, not caught either.
\<close>

theorem divide_by_zero_fails:
  assumes "map_of row column_numerator = Some x"
    and "map_of row column_denominator = Some y" and "py_eq y (VInt 0)"
  shows "(x = VFloat c \<or> (x = VInt a \<and> (\<bar>a\<bar> < float_limit \<or> y = VInt 0)) \<longrightarrow>
            mapper_call (Divide column_numerator column_denominator result_column) row
              = ([], Some zero_denominator)
          \<and> Map_call (mapper_call (Divide column_numerator column_denominator result_column))
              (row # rows, t) = ([], Some zero_denominator)
          \<and> (i < length h \<longrightarrow> h ! i = row \<longrightarrow>
               mapper_call_obj (Divide column_numerator column_denominator result_column) i h
                 = (([], Some zero_denominator), h)))
       \<and> \<not> is_ArithmeticError zero_denominator
       \<and> (x = VInt a \<longrightarrow> float_limit \<le> \<bar>a\<bar> \<longrightarrow> y = VFloat b \<longrightarrow>
            mapper_call (Divide column_numerator column_denominator result_column) row
              = ([], Some OverflowError)
          \<and> Map_call (mapper_call (Divide column_numerator column_denominator result_column))
              (row # rows, t) = ([], Some OverflowError))
       \<and> is_ArithmeticError OverflowError
       \<and> (x = VStr s \<longrightarrow>
            mapper_call (Divide column_numerator column_denominator result_column) row
              = ([], Some TypeError))"
proof -
  let ?D = "Divide column_numerator column_denominator result_column"
  note z = py_truediv_zero[OF assms(3), of x]
  have A: "mapper_call ?D row = ([], Some zero_denominator)
          \<and> Map_call (mapper_call ?D) (row # rows, t) = ([], Some zero_denominator)
          \<and> (i < length h \<longrightarrow> h ! i = row \<longrightarrow>
               mapper_call_obj ?D i h = (([], Some zero_denominator), h))"
    if "x = VFloat c \<or> (x = VInt a \<and> (\<bar>a\<bar> < float_limit \<or> y = VInt 0))"
  proof -
    have d: "py_truediv x y = Inl ZeroDivisionError"
      using that z by (cases y) auto
    have b: "Divide_body column_numerator column_denominator result_column row
        = (row, Some zero_denominator)"
      using assms(1,2) d by (simp add: Divide_body_def)
    then have c: "mapper_call ?D row = ([], Some zero_denominator)" by simp
    then have "Map_call (mapper_call ?D) (row # rows, t) = ([], Some zero_denominator)"
      by (simp add: Map_call_def yield_from_then_def)
    moreover have "i < length h \<longrightarrow> h ! i = row \<longrightarrow>
        mapper_call_obj ?D i h = (([], Some zero_denominator), h)"
      using b by auto
    ultimately show ?thesis using c by blast
  qed
  have B: "mapper_call ?D row = ([], Some OverflowError)
          \<and> Map_call (mapper_call ?D) (row # rows, t) = ([], Some OverflowError)"
    if "x = VInt a" "float_limit \<le> \<bar>a\<bar>" "y = VFloat b"
  proof -
    have d: "py_truediv x y = Inl OverflowError"
      using that z by auto
    have "Divide_body column_numerator column_denominator result_column row
        = (row, Some OverflowError)"
      using assms(1,2) d by (simp add: Divide_body_def)
    then have c: "mapper_call ?D row = ([], Some OverflowError)" by simp
    then show ?thesis by (simp add: Map_call_def yield_from_then_def)
  qed
  have C: "mapper_call ?D row = ([], Some TypeError)" if "x = VStr s"
  proof -
    have "py_truediv x y = Inl TypeError" using that z by auto
    then have "Divide_body column_numerator column_denominator result_column row
        = (row, Some TypeError)"
      using assms(1,2) by (simp add: Divide_body_def)
    then show ?thesis by simp
  qed
  have D: "\<not> is_ArithmeticError zero_denominator" by (simp add: zero_denominator_def)
  have E: "is_ArithmeticError OverflowError" by simp
  show ?thesis using A B C D E by blast
qed

theorem divide_by_zero_fails_witness:
  "mapper_call (Divide ''x_col'' ''y_col'' ''divide'') [(''test_id'', VInt 1), (''x_col'', VInt 5), (''y_col'', VInt 0)]
     = ([], Some (ValueError ''Denominator column contains zero value''))
   \<and> Map_call (mapper_call (Divide ''x_col'' ''y_col'' ''divide''))
       ([[(''test_id'', VInt 1), (''x_col'', VInt 5), (''y_col'', VInt 0)]], None)
     = ([], Some (ValueError ''Denominator column contains zero value''))
   \<and> mapper_call_obj (Divide ''x_col'' ''y_col'' ''divide'') 0
       [[(''test_id'', VInt 1), (''x_col'', VInt 5), (''y_col'', VInt 0)]]
     = (([], Some (ValueError ''Denominator column contains zero value'')),
        [[(''test_id'', VInt 1), (''x_col'', VInt 5), (''y_col'', VInt 0)]])
   \<and> mapper_call (Divide ''x'' ''y'' ''divide'') [(''x'', VFloat 2.5), (''y'', VFloat 0)]
     = ([], Some (ValueError ''Denominator column contains zero value''))
   \<and> mapper_call (Divide ''x'' ''y'' ''divide'') [(''x'', VInt (10 ^ 400)), (''y'', VInt 0)]
     = ([], Some (ValueError ''Denominator column contains zero value''))
   \<and> mapper_call (Divide ''x'' ''y'' ''divide'') [(''x'', VInt (10 ^ 400)), (''y'', VFloat 0)]
     = ([], Some OverflowError)
   \<and> Map_call (mapper_call (Divide ''x'' ''y'' ''divide''))
       ([[(''x'', VInt (10 ^ 400)), (''y'', VFloat 0)]], None)
     = ([], Some OverflowError)
   \<and> mapper_call (Divide ''x'' ''y'' ''divide'') [(''x'', VStr ''a''), (''y'', VFloat 0)]
     = ([], Some TypeError)"
proof -
  let ?row = "[(''test_id'', VInt 1), (''x_col'', VInt 5), (''y_col'', VInt 0)]"
  have h: "map_of ?row ''x_col'' = Some (VInt 5)"
    "map_of ?row ''y_col'' = Some (VInt 0)" "py_eq (VInt 0) (VInt 0)"
    by simp_all
  note t1 = divide_by_zero_fails[where result_column = "''divide''" and rows = "[]" and t = None
      and i = 0 and h = "[?row]" and a = 5, OF h, THEN conjunct1]
  have s: "(0::nat) < length [?row]" "[?row] ! 0 = ?row" by simp_all
  from t1 s have r1: "mapper_call (Divide ''x_col'' ''y_col'' ''divide'') ?row
       = ([], Some (ValueError ''Denominator column contains zero value''))
     \<and> Map_call (mapper_call (Divide ''x_col'' ''y_col'' ''divide'')) ([?row], None)
       = ([], Some (ValueError ''Denominator column contains zero value''))
     \<and> mapper_call_obj (Divide ''x_col'' ''y_col'' ''divide'') 0 [?row]
       = (([], Some (ValueError ''Denominator column contains zero value'')), [?row])"
    by (simp add: zero_denominator_def)
  let ?f = "[(''x'', VFloat 2.5), (''y'', VFloat 0)]"
  have hf: "map_of ?f ''x'' = Some (VFloat 2.5)" "map_of ?f ''y'' = Some (VFloat 0)"
    "py_eq (VFloat 0) (VInt 0)"
    by simp_all
  note t2 = divide_by_zero_fails[where result_column = "''divide''" and c = "2.5", OF hf,
      THEN conjunct1]
  from t2 have r2: "mapper_call (Divide ''x'' ''y'' ''divide'') ?f
       = ([], Some (ValueError ''Denominator column contains zero value''))"
    by (simp add: zero_denominator_def)
  let ?b = "[(''x'', VInt (10 ^ 400)), (''y'', VInt 0)]"
  have hb: "map_of ?b ''x'' = Some (VInt (10 ^ 400))" "map_of ?b ''y'' = Some (VInt 0)"
    "py_eq (VInt 0) (VInt 0)"
    by simp_all
  note t3 = divide_by_zero_fails[where result_column = "''divide''" and a = "10 ^ 400", OF hb,
      THEN conjunct1]
  from t3 have r3: "mapper_call (Divide ''x'' ''y'' ''divide'') ?b
       = ([], Some (ValueError ''Denominator column contains zero value''))"
    by (simp add: zero_denominator_def)
  let ?o = "[(''x'', VInt (10 ^ 400)), (''y'', VFloat 0)]"
  have big: "float_limit \<le> \<bar>10 ^ 400 :: int\<bar>"
    by (simp add: float_limit_def)
  have ho: "map_of ?o ''x'' = Some (VInt (10 ^ 400))" "map_of ?o ''y'' = Some (VFloat 0)"
    "py_eq (VFloat 0) (VInt 0)"
    by simp_all
  note t4 = divide_by_zero_fails[where result_column = "''divide''" and a = "10 ^ 400"
      and b = 0 and rows = "[]" and t = None, OF ho,
      THEN conjunct2, THEN conjunct2, THEN conjunct1, rule_format, OF refl big refl]
  let ?s = "[(''x'', VStr ''a''), (''y'', VFloat 0)]"
  have hs: "map_of ?s ''x'' = Some (VStr ''a'')" "map_of ?s ''y'' = Some (VFloat 0)"
    "py_eq (VFloat 0) (VInt 0)"
    by simp_all
  note t5 = divide_by_zero_fails[where result_column = "''divide''" and s = "''a''", OF hs,
      THEN conjunct2, THEN conjunct2, THEN conjunct2, THEN conjunct2, rule_format, OF refl]
  show ?thesis using r1 r2 r3 t4 t5 by blast
qed

theorem divide_by_zero_fails_counterexample:
  "map_of [(''x'', VInt 1), (''y'', VInt 0)] ''y'' = Some (VInt 0)
   \<and> mapper_call (Divide ''x'' ''y'' ''divide'') [(''x'', VInt 1), (''y'', VInt 0)]
       = ([], Some (ValueError ''Denominator column contains zero value''))
   \<and> \<not> is_ArithmeticError (ValueError ''Denominator column contains zero value'')
   \<and> map_of [(''x'', VStr ''a''), (''y'', VInt 0)] ''y'' = Some (VInt 0)
   \<and> mapper_call (Divide ''x'' ''y'' ''divide'') [(''x'', VStr ''a''), (''y'', VInt 0)]
       = ([], Some TypeError)
   \<and> \<not> is_ArithmeticError TypeError"
  by (simp add: Divide_body_def zero_denominator_def)

subsection \<open>Mappers assign into the row objects\<close>

lemma mapper_call_obj_in_place:
  assumes "\<forall>cs. m \<noteq> Project cs"
  shows "mapper_call_obj m a h =
     ((if snd (mapper_body m (h ! a)) = None then [a] else [], snd (mapper_body m (h ! a))),
      h[a := fst (mapper_body m (h ! a))])"
  using assms by (cases m) (auto split: prod.splits option.splits)

lemma Map_obj_in_place:
  assumes "\<forall>cs. m \<noteq> Project cs"
    and "Map_obj m rows t h = ((out, None), h')"
    and "distinct rows" and "\<forall>a \<in> set rows. a < length h"
  shows "out = rows \<and> length h' = length h
     \<and> (\<forall>a \<in> set rows. h' ! a = fst (mapper_body m (h ! a)))
     \<and> (\<forall>b. b \<notin> set rows \<longrightarrow> h' ! b = h ! b)"
  using assms(2-)
proof (induction rows arbitrary: h out)
  case Nil
  then show ?case by simp
next
  case (Cons a rows)
  let ?b = "mapper_body m (h ! a)"
  let ?h1 = "h[a := fst ?b]"
  have step: "mapper_call_obj m a h = ((if snd ?b = None then [a] else [], snd ?b), ?h1)"
    by (rule mapper_call_obj_in_place[OF assms(1)])
  have ok: "snd ?b = None"
    using Cons.prems(1) step by (cases "snd ?b") (auto split: prod.splits)
  obtain out' t' h'' where rest: "Map_obj m rows t ?h1 = ((out', t'), h'')"
    by (metis prod.exhaust)
  have eq: "out = a # out'" "t' = None" "h' = h''"
    using Cons.prems(1) step ok rest by auto
  have IH: "out' = rows \<and> length h'' = length ?h1
     \<and> (\<forall>b \<in> set rows. h'' ! b = fst (mapper_body m (?h1 ! b)))
     \<and> (\<forall>b. b \<notin> set rows \<longrightarrow> h'' ! b = ?h1 ! b)"
    using Cons.IH[of ?h1 out'] rest eq Cons.prems(2,3) by simp
  have a_notin: "a \<notin> set rows" using Cons.prems(2) by simp
  have a_lt: "a < length h" using Cons.prems(3) by simp
  show ?case
  proof (intro conjI ballI allI impI)
    show "out = a # rows" using eq IH by simp
    show "length h' = length h" using eq IH by simp
  next
    fix b assume b: "b \<in> set (a # rows)"
    show "h' ! b = fst (mapper_body m (h ! b))"
    proof (cases "b = a")
      case True
      then show ?thesis using IH a_notin a_lt eq by simp
    next
      case False
      with b have "b \<in> set rows" by simp
      then show ?thesis using IH False eq by simp
    qed
  next
    fix b assume "b \<notin> set (a # rows)"
    then show "h' ! b = h ! b" using IH eq by simp
  qed
qed

text \<open>
  Claim C10. \<^verbatim>\<open>FilterPunctuation\<close>, \<^verbatim>\<open>LowerCase\<close> and \<^verbatim>\<open>Product\<close> (and every mapper of the
  model but \<^verbatim>\<open>Project\<close>) write the new column value into the row object they are given
  and yield that object: \<^verbatim>\<open>Map\<close> over a stream of distinct row objects, consumed to its
  end without an exception, yields the very objects it was given, allocates nothing, and
  leaves every one of them holding the transformed row.
\<close>

theorem map_assigns_in_place:
  "(a < length h \<longrightarrow> map_of (h ! a) column = Some (VStr s) \<longrightarrow>
      mapper_call_obj (FilterPunctuation column) a h
         = (([a], None), h[a := AList.update column (VStr (translate_punctuation s)) (h ! a)])
    \<and> mapper_call_obj (LowerCase column) a h
         = (([a], None), h[a := AList.update column (VStr (lower_case s)) (h ! a)]))
   \<and> (a < length h \<longrightarrow>
        Product_loop columns result_column (AList.update result_column (VInt 1) (h ! a)) = (r, None) \<longrightarrow>
        mapper_call_obj (Product columns result_column) a h = (([a], None), h[a := r]))
   \<and> ((\<forall>cs. m \<noteq> Project cs) \<longrightarrow> distinct rows \<longrightarrow> (\<forall>a \<in> set rows. a < length h) \<longrightarrow>
        Map_obj m rows t h = ((out, None), h') \<longrightarrow>
          out = rows \<and> length h' = length h
        \<and> (\<forall>a \<in> set rows. h' ! a = fst (mapper_body m (h ! a)))
        \<and> (\<forall>b. b \<notin> set rows \<longrightarrow> h' ! b = h ! b))"
proof (intro conjI impI)
  assume "a < length h" "map_of (h ! a) column = Some (VStr s)"
  then show "mapper_call_obj (FilterPunctuation column) a h
         = (([a], None), h[a := AList.update column (VStr (translate_punctuation s)) (h ! a)])"
    and "mapper_call_obj (LowerCase column) a h
         = (([a], None), h[a := AList.update column (VStr (lower_case s)) (h ! a)])"
    by (simp_all add: FilterPunctuation_body_def LowerCase_body_def)
next
  assume "a < length h"
    "Product_loop columns result_column (AList.update result_column (VInt 1) (h ! a)) = (r, None)"
  then show "mapper_call_obj (Product columns result_column) a h = (([a], None), h[a := r])"
    by (simp add: Product_body_def)
next
  assume *: "\<forall>cs. m \<noteq> Project cs" "distinct rows" "\<forall>a \<in> set rows. a < length h"
    "Map_obj m rows t h = ((out, None), h')"
  note r = Map_obj_in_place[OF *(1) *(4) *(2) *(3)]
  show "out = rows" using r by simp
  show "length h' = length h" using r by simp
  show "\<forall>a \<in> set rows. h' ! a = fst (mapper_body m (h ! a))" using r by simp
  show "\<forall>b. b \<notin> set rows \<longrightarrow> h' ! b = h ! b" using r by simp
qed

theorem map_assigns_in_place_witness:
  "Map_obj (LowerCase ''text'') [0, 1] None
      [[(''doc_id'', VInt 1), (''text'', VStr ''Hello'')], [(''doc_id'', VInt 2), (''text'', VStr ''WORLD!'')]]
     = (([0, 1], None),
        [[(''doc_id'', VInt 1), (''text'', VStr ''hello'')], [(''doc_id'', VInt 2), (''text'', VStr ''world!'')]])
   \<and> mapper_call_obj (FilterPunctuation ''text'') 0 [[(''text'', VStr ''Hello, world!'')]]
     = (([0], None), [[(''text'', VStr ''Hello world'')]])
   \<and> mapper_call_obj (LowerCase ''text'') 0 [[(''text'', VStr ''Hello, world!'')]]
     = (([0], None), [[(''text'', VStr ''hello, world!'')]])
   \<and> mapper_call_obj (Product [''a'', ''b''] ''product'') 0 [[(''a'', VInt 3), (''b'', VInt 4)]]
     = (([0], None), [[(''a'', VInt 3), (''b'', VInt 4), (''product'', VInt 12)]])"
proof -
  let ?h = "[[(''doc_id'', VInt 1), (''text'', VStr ''Hello'')], [(''doc_id'', VInt 2), (''text'', VStr ''WORLD!'')]]"
  let ?h' = "[[(''doc_id'', VInt 1), (''text'', VStr ''hello'')], [(''doc_id'', VInt 2), (''text'', VStr ''world!'')]]"
  have run: "Map_obj (LowerCase ''text'') [0, 1] None ?h = (([0, 1], None), ?h')"
    by code_simp
  have "\<forall>a \<in> set [0, 1 :: nat]. a < length ?h" by simp
  then have m: "[0, 1] = [0, 1 :: nat] \<and> length ?h' = length ?h
        \<and> (\<forall>a \<in> set [0, 1]. ?h' ! a = fst (mapper_body (LowerCase ''text'') (?h ! a)))
        \<and> (\<forall>b. b \<notin> set [0, 1] \<longrightarrow> ?h' ! b = ?h ! b)"
    using map_assigns_in_place[where m = "LowerCase ''text''" and rows = "[0, 1]" and h = ?h
        and t = None and out = "[0, 1]" and h' = ?h'] run
    by simp
  let ?g = "[[(''text'', VStr ''Hello, world!'')]]"
  have g: "(0::nat) < length ?g" "map_of (?g ! 0) ''text'' = Some (VStr ''Hello, world!'')"
    by simp_all
  note f = map_assigns_in_place[where a = 0 and h = ?g and column = "''text''"
      and s = "''Hello, world!''", THEN conjunct1, rule_format, OF g]
  have tp: "translate_punctuation ''Hello, world!'' = ''Hello world''" by code_simp
  have lc: "lower_case ''Hello, world!'' = ''hello, world!''" by code_simp
  from f have f': "mapper_call_obj (FilterPunctuation ''text'') 0 ?g = (([0], None), [[(''text'', VStr ''Hello world'')]])
     \<and> mapper_call_obj (LowerCase ''text'') 0 ?g = (([0], None), [[(''text'', VStr ''hello, world!'')]])"
    by (simp add: tp lc)
  let ?p = "[[(''a'', VInt 3), (''b'', VInt 4)]]"
  have pl: "(0::nat) < length ?p"
    "Product_loop [''a'', ''b''] ''product'' (AList.update ''product'' (VInt 1) (?p ! 0))
       = ([(''a'', VInt 3), (''b'', VInt 4), (''product'', VInt 12)], None)"
    by simp_all
  note pr = map_assigns_in_place[where a = 0 and h = ?p and columns = "[''a'', ''b'']"
      and result_column = "''product''", THEN conjunct2, THEN conjunct1, rule_format, OF pl]
  from pr have pr': "mapper_call_obj (Product [''a'', ''b''] ''product'') 0 ?p
     = (([0], None), [[(''a'', VInt 3), (''b'', VInt 4), (''product'', VInt 12)]])"
    by simp
  show ?thesis using run f' pr' by blast
qed

section \<open>Graph runs\<close>

subsection \<open>A copy of a graph\<close>

lemma consume_yield_each:
  "consume (yield_each out g) h =
     (case consume g h of ((out', t), h') \<Rightarrow> ((map (\<lambda>a. (a, h ! a)) out @ out', t), h'))"
  by (induction out) (auto split: prod.splits)

lemma resume_consume: "consume g h = consume_step (resume g h)"
  by (cases g) simp

text \<open>
  \<^verbatim>\<open>Map\<close> as a generator over an iterator of row objects, taken to its end, yields the
  objects and leaves the store that \<open>Map_obj\<close> gives.
\<close>

lemma consume_Map_gen_iter:
  "consume (Map_gen m (iter_gen rows t)) h = ((out, t'), h') \<Longrightarrow>
     Map_obj m rows t h = ((map fst out, t'), h')"
proof (induction rows arbitrary: h out t' h')
  case Nil
  then show ?case by auto
next
  case (Cons a rows)
  obtain o1 t1 h1 where m: "mapper_call_obj m a h = ((o1, t1), h1)"
    by (metis prod.exhaust)
  show ?case
  proof (cases t1)
    case None
    obtain o2 t2 h2 where r: "consume (Map_gen m (iter_gen rows t)) h1 = ((o2, t2), h2)"
      by (metis prod.exhaust)
    have "consume (Map_gen m (iter_gen (a # rows) t)) h
        = ((map (\<lambda>a. (a, h1 ! a)) o1 @ o2, t2), h2)"
      using m None r
      by (simp add: resume_consume[symmetric] consume_yield_each)
    with Cons.prems have e: "out = map (\<lambda>a. (a, h1 ! a)) o1 @ o2" "t' = t2" "h' = h2" by auto
    from Cons.IH[OF r] have "Map_obj m rows t h1 = ((map fst o2, t2), h2)" .
    then show ?thesis using m None e by (simp add: comp_def)
  next
    case (Some e)
    have "consume (Map_gen m (iter_gen (a # rows) t)) h
        = ((map (\<lambda>a. (a, h1 ! a)) o1, Some e), h1)"
      using m Some
      by (simp add: resume_consume[symmetric] consume_yield_each raise_gen_def)
    with Cons.prems have "out = map (\<lambda>a. (a, h1 ! a)) o1" "t' = Some e" "h' = h1" by auto
    then show ?thesis using m Some by (simp add: comp_def)
  qed
qed

text \<open>
  Claim C6, amended. \<^verbatim>\<open>G.copy()\<close> allocates a new \<^verbatim>\<open>Graph\<close> object, at an address that
  neither \<open>G\<close> nor any object \<open>G\<close> reaches has, whose two fields are the operation and the
  list of parents of \<open>G\<close>. A run reads nothing else of a graph object, so the run of the
  copy is the generator that the run of \<open>G\<close> is: with suppliers that give the same
  iterator on every call, and consumed from the same contents of the row objects, the two
  yield the same objects with the same contents, end the same way and leave the same
  contents.

  The two runs are not equal when one is consumed after the other over the same row
  objects: the mappers assign into the rows of the source, and the second run starts
  from what the first has left (\<open>copy_runs_equal_counterexample\<close>).
\<close>

theorem copy_runs_equal:
  assumes "allocated n g"
  shows "address (fst (copy n g)) = n \<and> snd (copy n g) = Suc n
       \<and> address (fst (copy n g)) \<notin> addresses g
       \<and> fst (copy n g) \<noteq> g
       \<and> allocated (Suc n) (fst (copy n g))
       \<and> obj_operation (fst (copy n g)) = obj_operation g
       \<and> obj_parents (fst (copy n g)) = obj_parents g
       \<and> run_obj (fst (copy n g)) kwargs = run_obj g kwargs
       \<and> consume (run_obj (fst (copy n g)) kwargs) h = consume (run_obj g kwargs) h"
proof -
  obtain i op ps where g: "g = GraphObj i op ps" by (cases g)
  have c: "fst (copy n g) = GraphObj n op ps" "snd (copy n g) = Suc n"
    by (simp_all add: copy_def Graph_init_def g)
  have lt: "\<forall>j \<in> addresses g. j < n" using assms by (simp add: allocated_def)
  then have new: "n \<notin> addresses g" by auto
  have "i < n" using lt g by simp
  then have ne: "fst (copy n g) \<noteq> g" using c g by simp
  have al: "allocated (Suc n) (fst (copy n g))"
    using lt c g by (auto simp: allocated_def less_Suc_eq)
  have r: "run_obj (fst (copy n g)) kwargs = run_obj g kwargs"
    using c g by simp
  show ?thesis using c g new ne al r by simp
qed

theorem copy_runs_equal_witness:
  "allocated 2 (GraphObj 1 (Map_op (LowerCase ''text'')) [GraphObj 0 (ReadIterGenerator_op ''texts'') []])
   \<and> address (fst (copy 2 (GraphObj 1 (Map_op (LowerCase ''text'')) [GraphObj 0 (ReadIterGenerator_op ''texts'') []]))) = 2
   \<and> fst (copy 2 (GraphObj 1 (Map_op (LowerCase ''text'')) [GraphObj 0 (ReadIterGenerator_op ''texts'') []]))
       \<noteq> GraphObj 1 (Map_op (LowerCase ''text'')) [GraphObj 0 (ReadIterGenerator_op ''texts'') []]
   \<and> obj_parents (fst (copy 2 (GraphObj 1 (Map_op (LowerCase ''text'')) [GraphObj 0 (ReadIterGenerator_op ''texts'') []])))
       = [GraphObj 0 (ReadIterGenerator_op ''texts'') []]
   \<and> consume (run_obj (fst (copy 2 (GraphObj 1 (Map_op (LowerCase ''text'')) [GraphObj 0 (ReadIterGenerator_op ''texts'') []])))
        [''texts'' \<mapsto> iter_gen [0, 1] None])
        [[(''doc_id'', VInt 1), (''text'', VStr ''Hello'')], [(''doc_id'', VInt 2), (''text'', VStr ''WORLD'')]]
     = consume (run_obj (GraphObj 1 (Map_op (LowerCase ''text'')) [GraphObj 0 (ReadIterGenerator_op ''texts'') []])
        [''texts'' \<mapsto> iter_gen [0, 1] None])
        [[(''doc_id'', VInt 1), (''text'', VStr ''Hello'')], [(''doc_id'', VInt 2), (''text'', VStr ''WORLD'')]]
   \<and> consume (run_obj (GraphObj 1 (Map_op (LowerCase ''text'')) [GraphObj 0 (ReadIterGenerator_op ''texts'') []])
        [''texts'' \<mapsto> iter_gen [0, 1] None])
        [[(''doc_id'', VInt 1), (''text'', VStr ''Hello'')], [(''doc_id'', VInt 2), (''text'', VStr ''WORLD'')]]
     = (([(0, [(''doc_id'', VInt 1), (''text'', VStr ''hello'')]),
          (1, [(''doc_id'', VInt 2), (''text'', VStr ''world'')])], None),
        [[(''doc_id'', VInt 1), (''text'', VStr ''hello'')], [(''doc_id'', VInt 2), (''text'', VStr ''world'')]])"
proof -
  let ?g = "GraphObj 1 (Map_op (LowerCase ''text'')) [GraphObj 0 (ReadIterGenerator_op ''texts'') []]"
  let ?kw = "[''texts'' \<mapsto> iter_gen [0, 1] None]"
  let ?h = "[[(''doc_id'', VInt 1), (''text'', VStr ''Hello'')], [(''doc_id'', VInt 2), (''text'', VStr ''WORLD'')]]"
  have a: "allocated 2 ?g" by (simp add: allocated_def)
  note t = copy_runs_equal[OF a, where kwargs = ?kw and h = ?h]
  have p: "obj_parents ?g = [GraphObj 0 (ReadIterGenerator_op ''texts'') []]" by simp
  have lc: "lower_case ''Hello'' = ''hello''" "lower_case ''WORLD'' = ''world''" by code_simp+
  have r: "consume (run_obj ?g ?kw) ?h
     = (([(0, [(''doc_id'', VInt 1), (''text'', VStr ''hello'')]),
          (1, [(''doc_id'', VInt 2), (''text'', VStr ''world'')])], None),
        [[(''doc_id'', VInt 1), (''text'', VStr ''hello'')], [(''doc_id'', VInt 2), (''text'', VStr ''world'')]])"
    by (simp add: Map_op_def ReadIterGenerator_op_def LowerCase_body_def lc)
  from t have "address (fst (copy 2 ?g)) = 2" "fst (copy 2 ?g) \<noteq> ?g"
    "obj_parents (fst (copy 2 ?g)) = obj_parents ?g"
    "consume (run_obj (fst (copy 2 ?g)) ?kw) ?h = consume (run_obj ?g ?kw) ?h"
    by blast+
  with a p r show ?thesis by metis
qed

theorem copy_runs_equal_counterexample:
  "fst (graph_map_obj 1 (fst (graph_from_iter_obj 0 ''a'')) (Divide ''x'' ''y'' ''x''))
     = GraphObj 1 (Map_op (Divide ''x'' ''y'' ''x'')) [GraphObj 0 (ReadIterGenerator_op ''a'') []]
   \<and> consume (run_obj (GraphObj 1 (Map_op (Divide ''x'' ''y'' ''x'')) [GraphObj 0 (ReadIterGenerator_op ''a'') []])
        [''a'' \<mapsto> iter_gen [0] None]) [[(''x'', VInt 8), (''y'', VInt 2)]]
     = (([(0, [(''x'', VFloat 4), (''y'', VInt 2)])], None), [[(''x'', VFloat 4), (''y'', VInt 2)]])
   \<and> consume (run_obj (fst (copy 2 (GraphObj 1 (Map_op (Divide ''x'' ''y'' ''x'')) [GraphObj 0 (ReadIterGenerator_op ''a'') []])))
        [''a'' \<mapsto> iter_gen [0] None]) [[(''x'', VFloat 4), (''y'', VInt 2)]]
     = (([(0, [(''x'', VFloat 2), (''y'', VInt 2)])], None), [[(''x'', VFloat 2), (''y'', VInt 2)]])
   \<and> [(0::nat, [(''x'', VFloat 4), (''y'', VInt 2)])] \<noteq> [(0, [(''x'', VFloat 2), (''y'', VInt 2)])]"
  by (simp add: graph_map_obj_def graph_from_iter_obj_def Graph_init_def copy_def Map_op_def
      ReadIterGenerator_op_def Divide_body_def float_limit_def to_float_def)

subsection \<open>A missing source\<close>














section \<open>External sort: a stable sorted permutation\<close>

lemma concat_chunks: "0 < n \<Longrightarrow> concat (chunks n xs) = xs"
proof (induction n xs rule: chunks.induct)
  case (1 n xs)
  show ?case
  proof (cases "xs = []")
    case True
    then show ?thesis by (subst chunks.simps) simp
  next
    case False
    with 1 have "concat (chunks n (drop n xs)) = drop n xs" by simp
    with False "1.prems" show ?thesis by (subst chunks.simps) simp
  qed
qed

lemma pop_least_None: "pop_least key runs = None \<Longrightarrow> concat runs = []"
  by (induction runs) (auto split: option.splits list.splits if_splits)

lemma pop_least_mset:
  "pop_least key runs = Some (x, runs') \<Longrightarrow> mset (concat runs) = add_mset x (mset (concat runs'))"
  by (induction runs arbitrary: x runs')
    (fastforce split: option.splits list.splits if_splits)+

lemma pop_least_sorted:
  "pop_least key runs = Some (x, runs') \<Longrightarrow> \<forall>r \<in> set runs. sorted (map key r) \<Longrightarrow>
   \<forall>r \<in> set runs'. sorted (map key r)"
  by (induction runs arbitrary: x runs')
    (fastforce split: option.splits list.splits if_splits)+

lemma pop_least_least:
  "pop_least key runs = Some (x, runs') \<Longrightarrow> \<forall>r \<in> set runs. sorted (map key r) \<Longrightarrow>
   \<forall>y \<in> set (concat runs). key x \<le> key y"
proof (induction runs arbitrary: x runs')
  case Nil
  then show ?case by simp
next
  case (Cons r rs)
  show ?case
  proof (cases "pop_least key rs")
    case None
    then have e: "concat rs = []" by (rule pop_least_None)
    from Cons.prems None obtain r' where r: "r = x # r'"
      by (auto split: list.splits)
    with Cons.prems(2) e show ?thesis by auto
  next
    case (Some p)
    obtain y rs' where p: "p = (y, rs')" by (cases p)
    have IH: "\<forall>z \<in> set (concat rs). key y \<le> key z"
      using Cons.IH[of y rs'] Some p Cons.prems(2) by simp
    show ?thesis
    proof (cases r)
      case Nil
      with Cons.prems(1) Some p IH show ?thesis by auto
    next
      case (Cons a r')
      have sr: "\<forall>z \<in> set r. key a \<le> key z"
        using Cons.prems(2) Cons by auto
      show ?thesis
      proof (cases "key a \<le> key y")
        case True
        with Cons.prems(1) Some p Cons have "x = a" by simp
        with sr IH True show ?thesis by fastforce
      next
        case False
        with Cons.prems(1) Some p Cons have "x = y" by simp
        with sr IH False show ?thesis by fastforce
      qed
    qed
  qed
qed

lemma pop_least_stable:
  "pop_least key runs = Some (x, runs') \<Longrightarrow> \<forall>r \<in> set runs. sorted (map key r) \<Longrightarrow>
   concat (map (filter (\<lambda>z. key z = k)) runs)
     = (if key x = k then [x] else []) @ concat (map (filter (\<lambda>z. key z = k)) runs')"
proof (induction runs arbitrary: x runs')
  case Nil
  then show ?case by simp
next
  case (Cons r rs)
  show ?case
  proof (cases "pop_least key rs")
    case None
    then have "concat rs = []" by (rule pop_least_None)
    then have e: "concat (map (filter (\<lambda>z. key z = k)) rs) = []" by auto
    from Cons.prems None obtain r' where r: "r = x # r'" "runs' = r' # rs"
      by (auto split: list.splits)
    then show ?thesis by simp
  next
    case (Some p)
    obtain y rs' where p: "p = (y, rs')" by (cases p)
    have IH: "concat (map (filter (\<lambda>z. key z = k)) rs)
        = (if key y = k then [y] else []) @ concat (map (filter (\<lambda>z. key z = k)) rs')"
      using Cons.IH[of y rs'] Some p Cons.prems(2) by simp
    show ?thesis
    proof (cases r)
      case Nil
      with Cons.prems(1) Some p IH show ?thesis by auto
    next
      case (Cons a r')
      show ?thesis
      proof (cases "key a \<le> key y")
        case True
        with Cons.prems(1) Some p Cons show ?thesis by auto
      next
        case False
        with Cons.prems(1) Some p Cons have x: "x = y" "runs' = r # rs'" by simp_all
        have "\<forall>z \<in> set r. key a \<le> key z" using Cons.prems(2) Cons by auto
        with False have "\<forall>z \<in> set r. key z \<noteq> key y" by fastforce
        then have "key y = k \<Longrightarrow> filter (\<lambda>z. key z = k) r = []"
          by (auto simp: filter_empty_conv)
        with IH x show ?thesis by auto
      qed
    qed
  qed
qed

lemma kway_merge_mset: "mset (kway_merge key runs) = mset (concat runs)"
proof (induction key runs rule: kway_merge.induct)
  case (1 key runs)
  show ?case
  proof (cases "pop_least key runs")
    case None
    then show ?thesis using pop_least_None[OF None] by (subst kway_merge.simps) simp
  next
    case (Some p)
    obtain x runs' where p: "p = (x, runs')" by (cases p)
    have "mset (kway_merge key runs') = mset (concat runs')"
      by (rule "1.IH"[OF Some p[symmetric]])
    with Some p pop_least_mset[of key runs x runs'] show ?thesis
      by (subst kway_merge.simps) simp
  qed
qed

lemma kway_merge_sorted:
  "\<forall>r \<in> set runs. sorted (map key r) \<Longrightarrow> sorted (map key (kway_merge key runs))"
proof (induction key runs rule: kway_merge.induct)
  case (1 key runs)
  show ?case
  proof (cases "pop_least key runs")
    case None
    then show ?thesis by (subst kway_merge.simps) simp
  next
    case (Some p)
    obtain x runs' where p: "p = (x, runs')" by (cases p)
    have s': "\<forall>r \<in> set runs'. sorted (map key r)"
      using pop_least_sorted[of key runs x runs'] Some p "1.prems" by simp
    have IH: "sorted (map key (kway_merge key runs'))"
      by (rule "1.IH"[OF Some p[symmetric] s'])
    have "\<forall>y \<in> set (concat runs). key x \<le> key y"
      using pop_least_least[of key runs x runs'] Some p "1.prems" by simp
    moreover have "set (concat runs') \<subseteq> set (concat runs)"
      using pop_least_mset[of key runs x runs'] Some p
      by (metis set_mset_mset subset_insertI set_mset_add_mset_insert)
    moreover have "set (kway_merge key runs') = set (concat runs')"
      using kway_merge_mset[of key runs'] by (metis set_mset_mset)
    ultimately have "\<forall>y \<in> set (kway_merge key runs'). key x \<le> key y" by blast
    with IH Some p show ?thesis by (subst kway_merge.simps) simp
  qed
qed

lemma kway_merge_stable:
  "\<forall>r \<in> set runs. sorted (map key r) \<Longrightarrow>
   filter (\<lambda>z. key z = k) (kway_merge key runs) = concat (map (filter (\<lambda>z. key z = k)) runs)"
proof (induction key runs rule: kway_merge.induct)
  case (1 key runs)
  show ?case
  proof (cases "pop_least key runs")
    case None
    then have "concat runs = []" by (rule pop_least_None)
    then have "concat (map (filter (\<lambda>z. key z = k)) runs) = []" by auto
    with None show ?thesis by (subst kway_merge.simps) simp
  next
    case (Some p)
    obtain x runs' where p: "p = (x, runs')" by (cases p)
    have s': "\<forall>r \<in> set runs'. sorted (map key r)"
      using pop_least_sorted[of key runs x runs'] Some p "1.prems" by simp
    have IH: "filter (\<lambda>z. key z = k) (kway_merge key runs')
        = concat (map (filter (\<lambda>z. key z = k)) runs')"
      by (rule "1.IH"[OF Some p[symmetric] s'])
    have st: "concat (map (filter (\<lambda>z. key z = k)) runs)
        = (if key x = k then [x] else []) @ concat (map (filter (\<lambda>z. key z = k)) runs')"
      using pop_least_stable[of key runs x runs' k] Some p "1.prems" by simp
    show ?thesis using Some p IH st by (subst kway_merge.simps) simp
  qed
qed

lemma filter_concat_map: "filter P (concat xss) = concat (map (filter P) xss)"
  by (induction xss) simp_all

lemma external_sort_props:
  assumes "0 < chunk"
  shows "mset (external_sort chunk key xs) = mset xs"
    and "sorted (map key (external_sort chunk key xs))"
    and "filter (\<lambda>z. key z = k) (external_sort chunk key xs) = filter (\<lambda>z. key z = k) xs"
proof -
  let ?runs = "map (sort_key key) (chunks chunk xs)"
  have s: "\<forall>r \<in> set ?runs. sorted (map key r)" by auto
  have m: "mset (concat ?runs) = mset xs"
  proof -
    have "mset (concat (map (sort_key key) yss)) = mset (concat yss)" for yss :: "'a list list"
      by (induction yss) simp_all
    then have "mset (concat ?runs) = mset (concat (chunks chunk xs))" .
    then show ?thesis by (simp add: concat_chunks[OF assms])
  qed
  show "mset (external_sort chunk key xs) = mset xs"
    using m by (simp add: external_sort_def kway_merge_mset)
  show "sorted (map key (external_sort chunk key xs))"
    using kway_merge_sorted[OF s] by (simp add: external_sort_def)
  have "concat (map (filter (\<lambda>z. key z = k)) ?runs)
      = concat (map (filter (\<lambda>z. key z = k)) (chunks chunk xs))"
    by (simp add: comp_def sort_key_stable)
  also have "\<dots> = filter (\<lambda>z. key z = k) (concat (chunks chunk xs))"
    by (simp add: filter_concat_map)
  also have "\<dots> = filter (\<lambda>z. key z = k) xs"
    by (simp add: concat_chunks[OF assms])
  finally show "filter (\<lambda>z. key z = k) (external_sort chunk key xs) = filter (\<lambda>z. key z = k) xs"
    using kway_merge_stable[OF s, of k] by (simp add: external_sort_def sort_key_stable)
qed

text \<open>
  Claim C5. For a positive \<open>CHUNK\<close>, every input and every key projection into a linear
  order, the external sort emits a permutation of its input, ascending in the key, in
  which the rows of equal key keep their input order; \<^verbatim>\<open>Graph.sort\<close> applies it to the
  stream of the graph it extends.
\<close>

theorem external_sort_stable_permutation:
  "0 < chunk \<longrightarrow>
     mset (external_sort chunk key S) = mset S
   \<and> sorted (map key (external_sort chunk key S))
   \<and> filter (\<lambda>r. key r = k) (external_sort chunk key S) = filter (\<lambda>r. key r = k) S
   \<and> (ext_sort W = ExternalSort_call chunk proj \<longrightarrow> run W g kwargs = (rows, None) \<longrightarrow>
        run W (graph_sort g keys) kwargs = (external_sort chunk (proj keys) rows, None))"
proof (intro impI conjI)
  assume c: "0 < chunk"
  show "mset (external_sort chunk key S) = mset S"
    by (rule external_sort_props(1)[OF c])
  show "sorted (map key (external_sort chunk key S))"
    by (rule external_sort_props(2)[OF c])
  show "filter (\<lambda>r. key r = k) (external_sort chunk key S) = filter (\<lambda>r. key r = k) S"
    by (rule external_sort_props(3)[OF c])
  show "run W (graph_sort g keys) kwargs = (external_sort chunk (proj keys) rows, None)"
    if "ext_sort W = ExternalSort_call chunk proj" "run W g kwargs = (rows, None)"
    using that by (simp add: graph_sort_def ExternalSort_call_def)
qed

theorem external_sort_stable_permutation_witness:
  "external_sort 2 (int_key_tuple [''k''])
     [[(''k'', VInt 2), (''t'', VStr ''a'')], [(''k'', VInt 1), (''t'', VStr ''b'')],
      [(''k'', VInt 2), (''t'', VStr ''c'')], [(''k'', VInt 1), (''t'', VStr ''d'')],
      [(''k'', VInt 0), (''t'', VStr ''e'')]]
   = [[(''k'', VInt 0), (''t'', VStr ''e'')], [(''k'', VInt 1), (''t'', VStr ''b'')],
      [(''k'', VInt 1), (''t'', VStr ''d'')], [(''k'', VInt 2), (''t'', VStr ''a'')],
      [(''k'', VInt 2), (''t'', VStr ''c'')]]
   \<and> sorted (map (int_key_tuple [''k''])
       (external_sort 2 (int_key_tuple [''k''])
         [[(''k'', VInt 2), (''t'', VStr ''a'')], [(''k'', VInt 1), (''t'', VStr ''b'')],
          [(''k'', VInt 2), (''t'', VStr ''c'')], [(''k'', VInt 1), (''t'', VStr ''d'')],
          [(''k'', VInt 0), (''t'', VStr ''e'')]]))
   \<and> run \<lparr>ext_sort = ExternalSort_call 2 int_key_tuple, files = (\<lambda>f. None)\<rparr>
       (graph_sort (graph_from_iter ''rows'') [''k''])
       (\<lambda>name. if name = ''rows''
          then Some ([[(''k'', VInt 2), (''t'', VStr ''a'')], [(''k'', VInt 1), (''t'', VStr ''b'')],
                      [(''k'', VInt 2), (''t'', VStr ''c'')]], None)
          else None)
     = (external_sort 2 (int_key_tuple [''k''])
          [[(''k'', VInt 2), (''t'', VStr ''a'')], [(''k'', VInt 1), (''t'', VStr ''b'')],
           [(''k'', VInt 2), (''t'', VStr ''c'')]], None)"
proof -
  let ?S = "[[(''k'', VInt 2), (''t'', VStr ''a'')], [(''k'', VInt 1), (''t'', VStr ''b'')],
      [(''k'', VInt 2), (''t'', VStr ''c'')], [(''k'', VInt 1), (''t'', VStr ''d'')],
      [(''k'', VInt 0), (''t'', VStr ''e'')]]"
  let ?T = "[[(''k'', VInt 2), (''t'', VStr ''a'')], [(''k'', VInt 1), (''t'', VStr ''b'')],
      [(''k'', VInt 2), (''t'', VStr ''c'')]]"
  let ?W = "\<lparr>ext_sort = ExternalSort_call 2 int_key_tuple, files = (\<lambda>f. None)\<rparr>"
  let ?kw = "\<lambda>name. if name = ''rows'' then Some (?T, None) else None"
  have c: "(0::nat) < 2" by simp
  note t = external_sort_stable_permutation[where chunk = 2 and key = "int_key_tuple [''k'']"
      and S = ?S and W = ?W and proj = int_key_tuple and g = "graph_from_iter ''rows''"
      and kwargs = ?kw and rows = ?T and keys = "[''k'']", rule_format, OF c]
  have srt: "sorted (map (int_key_tuple [''k'']) (external_sort 2 (int_key_tuple [''k'']) ?S))"
    using t by blast
  have w: "ext_sort ?W = ExternalSort_call 2 int_key_tuple" by simp
  have r: "run ?W (graph_from_iter ''rows'') ?kw = (?T, None)"
    by (simp add: graph_from_iter_def)
  have g: "run ?W (graph_sort (graph_from_iter ''rows'') [''k'']) ?kw
      = (external_sort 2 (int_key_tuple [''k'']) ?T, None)"
    using t w r by blast
  have "external_sort 2 (int_key_tuple [''k'']) ?S
   = [[(''k'', VInt 0), (''t'', VStr ''e'')], [(''k'', VInt 1), (''t'', VStr ''b'')],
      [(''k'', VInt 1), (''t'', VStr ''d'')], [(''k'', VInt 2), (''t'', VStr ''a'')],
      [(''k'', VInt 2), (''t'', VStr ''c'')]]"
    by code_simp
  with srt g show ?thesis by blast
qed

end
